theory Spec2Isabelle
  imports Main "HOL-Library.AList" "HOL-Library.Multiset" "HOL-Library.While_Combinator"
begin

section \<open>Result model: state extraction and restoration (base.py, class Result)\<close>

text \<open>
  A result instance is modelled by the attribute names its class declares
  (\<open>__slots__\<close>; no class of the repository defines \<open>__attrs__\<close>) and by the
  attributes that are currently set on the instance. A Python dict is an association
  list with distinct keys, in insertion order.
\<close>

datatype py_error = TypeError | AttributeError | AssertionError | RecursionError

record 'v result_inst =
  cls_slots :: "string list"
  inst :: "string \<rightharpoonup> 'v"

definition setattr :: "'v result_inst \<Rightarrow> string \<Rightarrow> 'v \<Rightarrow> 'v result_inst" where
  "setattr self k v = self\<lparr>inst := (inst self)(k \<mapsto> v)\<rparr>"

text \<open>\<open>dict(pairs)\<close>: a later pair with a key already present replaces its value.\<close>

definition dict_of :: "('k \<times> 'v) list \<Rightarrow> ('k \<times> 'v) list" where
  "dict_of ps = foldl (\<lambda>d (k, v). AList.update k v d) [] ps"

text \<open>
  \<open>__getstate__\<close>: with a non-empty attribute tuple the state is the dict of the
  declared attributes; reading an attribute that is not set raises AttributeError.
  With an empty tuple the call is passed on to \<open>object.__getstate__\<close>, which is
  not part of the repository.
\<close>

datatype 'v getstate_result = State "(string \<times> 'v) list" | Raised py_error | ObjectGetstate

definition getstate :: "'v result_inst \<Rightarrow> 'v getstate_result" where
  "getstate self =
     (let attrs = cls_slots self in
      if attrs \<noteq> [] then
        (if list_all (\<lambda>k. inst self k \<noteq> None) attrs
         then State (dict_of (map (\<lambda>k. (k, the (inst self k))) attrs))
         else Raised AttributeError)
      else ObjectGetstate)"

text \<open>
  \<open>__setstate__\<close>: the check runs before the first assignment; the pair returned
  is the exception raised (if any) and the instance afterwards.
\<close>

definition setstate :: "'v result_inst \<Rightarrow> (string \<times> 'v) list \<Rightarrow> py_error option \<times> 'v result_inst" where
  "setstate self data =
     (let attrs = set (cls_slots self) in
      if attrs - fst ` set data \<noteq> {} \<or> card attrs \<noteq> length data
      then (Some TypeError, self)
      else (None, foldl (\<lambda>obj (k, v). setattr obj k v) self data))"

subsection \<open>Properties of dicts built from pairs\<close>

lemma foldl_update_distinct:
  "distinct (map fst d) \<Longrightarrow>
   distinct (map fst (foldl (\<lambda>d (k, v). AList.update k v d) d ps))"
  by (induction ps arbitrary: d) (auto simp: distinct_update)

lemma foldl_update_keys:
  "fst ` set (foldl (\<lambda>d (k, v). AList.update k v d) d ps) = fst ` set d \<union> fst ` set ps"
proof (induction ps arbitrary: d)
  case Nil
  then show ?case by simp
next
  case (Cons p ps)
  obtain k v where p: "p = (k, v)" by (cases p)
  have "fst ` set (AList.update k v d) = insert k (fst ` set d)"
    using dom_update [of k v d] by (simp add: dom_map_of_conv_image_fst)
  with Cons.IH [of "AList.update k v d"] p show ?case by auto
qed

lemma foldl_update_map_of:
  "map_of (foldl (\<lambda>d (k, v). AList.update k v d) d ps) = map_of d ++ map_of (rev ps)"
proof (induction ps arbitrary: d)
  case Nil
  then show ?case by simp
next
  case (Cons p ps)
  obtain k v where p: "p = (k, v)" by (cases p)
  show ?case
    using Cons.IH [of "AList.update k v d"] p
    by (simp add: update_conv' map_add_def fun_eq_iff split: option.splits)
qed

lemma dict_of_distinct: "distinct (map fst (dict_of ps))"
  unfolding dict_of_def by (rule foldl_update_distinct) simp

lemma dict_of_keys: "fst ` set (dict_of ps) = fst ` set ps"
  unfolding dict_of_def by (simp add: foldl_update_keys)

lemma dict_of_lookup: "map_of (dict_of (map (\<lambda>k. (k, f k)) ks)) k = (if k \<in> set ks then Some (f k) else None)"
proof -
  have "map_of (rev (map (\<lambda>k. (k, f k)) ks)) k = (if k \<in> set ks then Some (f k) else None)"
    by (induction ks) (auto simp: map_add_def split: option.splits)
  then show ?thesis
    unfolding dict_of_def by (simp add: foldl_update_map_of)
qed

lemma foldl_setattr_slots:
  "cls_slots (foldl (\<lambda>obj (k, v). setattr obj k v) self d) = cls_slots self"
  by (induction d arbitrary: self) (auto simp: setattr_def)

lemma foldl_setattr_inst:
  "inst (foldl (\<lambda>obj (k, v). setattr obj k v) self d) = inst self ++ map_of (rev d)"
proof (induction d arbitrary: self)
  case Nil
  then show ?case by simp
next
  case (Cons p d)
  obtain k v where p: "p = (k, v)" by (cases p)
  show ?case
    using Cons.IH [of "setattr self k v"] p
    by (simp add: setattr_def map_add_def fun_eq_iff split: option.splits)
qed

lemma map_of_rev_distinct: "distinct (map fst d) \<Longrightarrow> map_of (rev d) = map_of d"
  by (rule map_of_inject_set [THEN iffD2]) (simp_all add: distinct_rev rev_map [symmetric])

lemma setstate_ok_iff:
  assumes "distinct (map fst data)"
  shows "(set (cls_slots self) - fst ` set data \<noteq> {} \<or> card (set (cls_slots self)) \<noteq> length data)
         \<longleftrightarrow> fst ` set data \<noteq> set (cls_slots self)"
proof -
  have len: "length data = card (fst ` set data)"
    using assms distinct_card [of "map fst data"] by simp
  show ?thesis
  proof (cases "set (cls_slots self) \<subseteq> fst ` set data")
    case True
    have "card (set (cls_slots self)) = card (fst ` set data) \<longleftrightarrow> set (cls_slots self) = fst ` set data"
      using True card_subset_eq [of "fst ` set data" "set (cls_slots self)"] by auto
    with True len show ?thesis by auto
  next
    case False
    then show ?thesis by auto
  qed
qed


lemma setstate_assigns:
  assumes "distinct (map fst data)" and "(k, v) \<in> set data"
  shows "inst (foldl (\<lambda>obj (k, v). setattr obj k v) self data) k = Some v"
proof -
  from assms have "map_of data k = Some v" by simp
  with assms(1) show ?thesis
    by (simp add: foldl_setattr_inst map_of_rev_distinct map_add_def)
qed

text \<open>
  C10. Restoring state succeeds exactly when the key set of the state dict equals the
  declared attribute set, and then every pair of the dict is assigned. When a declared
  attribute is missing or the dict holds another key, TypeError is raised and the
  instance is left as it was.
\<close>

theorem setstate_exact_keys:
  assumes "distinct (map fst data)"
  shows "(fst ` set data = set (cls_slots self) \<longrightarrow>
            fst (setstate self data) = None \<and>
            (\<forall>(k, v) \<in> set data. inst (snd (setstate self data)) k = Some v))
       \<and> (fst ` set data \<noteq> set (cls_slots self) \<longrightarrow>
            setstate self data = (Some TypeError, self))"
proof -
  note iff = setstate_ok_iff [OF assms, of self]
  show ?thesis
  proof (cases "fst ` set data = set (cls_slots self)")
    case True
    with iff have ok: "setstate self data = (None, foldl (\<lambda>obj (k, v). setattr obj k v) self data)"
      unfolding setstate_def Let_def by simp
    from True ok setstate_assigns [OF assms] show ?thesis by auto
  next
    case False
    with iff have "setstate self data = (Some TypeError, self)"
      unfolding setstate_def Let_def by simp
    with False show ?thesis by simp
  qed
qed

theorem setstate_exact_keys_witness:
  "fst (setstate \<lparr>cls_slots = [''category'', ''package''], inst = Map.empty\<rparr>
          [(''package'', ''b''), (''category'', ''a'')]) = None
   \<and> inst (snd (setstate \<lparr>cls_slots = [''category'', ''package''], inst = Map.empty\<rparr>
          [(''package'', ''b''), (''category'', ''a'')])) ''category'' = Some ''a''
   \<and> setstate \<lparr>cls_slots = [''category'', ''package''], inst = Map.empty\<rparr>
          [(''package'', ''b''), (''version'', ''1'')]
       = (Some TypeError, \<lparr>cls_slots = [''category'', ''package''], inst = Map.empty\<rparr>)
   \<and> setstate \<lparr>cls_slots = [''category'', ''package''], inst = Map.empty\<rparr>
          [(''package'', ''b'')]
       = (Some TypeError, \<lparr>cls_slots = [''category'', ''package''], inst = Map.empty\<rparr>)"
proof -
  let ?S = "\<lparr>cls_slots = [''category'', ''package''], inst = (Map.empty :: string \<rightharpoonup> string)\<rparr>"
  let ?d1 = "[(''package'', ''b''), (''category'', ''a'')]"
  let ?d2 = "[(''package'', ''b''), (''version'', ''1'')]"
  let ?d3 = "[(''package'', ''b'')]"
  have dist: "distinct (map fst ?d1)" "distinct (map fst ?d2)" "distinct (map fst ?d3)"
    by simp_all
  have k1: "fst ` set ?d1 = set (cls_slots ?S)" by (simp add: insert_commute)
  have k2: "fst ` set ?d2 \<noteq> set (cls_slots ?S)"
  proof
    assume e: "fst ` set ?d2 = set (cls_slots ?S)"
    have "''version'' \<in> fst ` set ?d2" by simp
    then have "''version'' \<in> set (cls_slots ?S)" unfolding e .
    then show False by simp
  qed
  have k3: "fst ` set ?d3 \<noteq> set (cls_slots ?S)"
  proof
    assume e: "fst ` set ?d3 = set (cls_slots ?S)"
    have "''category'' \<in> set (cls_slots ?S)" by simp
    then have "''category'' \<in> fst ` set ?d3" unfolding e [symmetric] .
    then show False by simp
  qed
  from setstate_exact_keys [OF dist(1), of ?S] k1
  have a: "fst (setstate ?S ?d1) = None"
    and b: "\<forall>(k, v) \<in> set ?d1. inst (snd (setstate ?S ?d1)) k = Some v"
    by blast+
  from b have b': "inst (snd (setstate ?S ?d1)) ''category'' = Some ''a''" by simp
  from setstate_exact_keys [OF dist(2), of ?S] k2
  have c: "setstate ?S ?d2 = (Some TypeError, ?S)" by blast
  from setstate_exact_keys [OF dist(3), of ?S] k3
  have d: "setstate ?S ?d3 = (Some TypeError, ?S)" by blast
  from a b' c d show ?thesis by (intro conjI)
qed

text \<open>
  C9, as amended. For a result whose class declares a non-empty attribute tuple and
  whose declared attributes are all set, \<open>__getstate__\<close> returns a dict,
  \<open>__setstate__\<close> accepts it on any instance of the same class, and afterwards every
  declared attribute has the value it has on the original.
\<close>

theorem getstate_setstate_roundtrip:
  assumes "cls_slots self \<noteq> []"
    and "\<forall>k \<in> set (cls_slots self). inst self k \<noteq> None"
    and "cls_slots fresh = cls_slots self"
  shows "\<exists>d. getstate self = State d \<and> fst (setstate fresh d) = None \<and>
           cls_slots (snd (setstate fresh d)) = cls_slots self \<and>
           (\<forall>k \<in> set (cls_slots self). inst (snd (setstate fresh d)) k = inst self k)"
proof -
  define d where "d = dict_of (map (\<lambda>k. (k, the (inst self k))) (cls_slots self))"
  have gs: "getstate self = State d"
    using assms(1,2) unfolding getstate_def d_def Let_def by (simp add: list_all_iff)
  have dist: "distinct (map fst d)"
    unfolding d_def by (rule dict_of_distinct)
  have keys: "fst ` set d = set (cls_slots fresh)"
    unfolding d_def by (simp add: dict_of_keys image_image assms(3))
  with setstate_ok_iff [OF dist, of fresh]
  have ss: "setstate fresh d = (None, foldl (\<lambda>obj (k, v). setattr obj k v) fresh d)"
    unfolding setstate_def Let_def by simp
  have "inst (snd (setstate fresh d)) k = inst self k" if k: "k \<in> set (cls_slots self)" for k
  proof -
    have "map_of d k = Some (the (inst self k))"
      unfolding d_def using k by (simp add: dict_of_lookup)
    moreover from assms(2) k obtain v where "inst self k = Some v" by auto
    ultimately show ?thesis
      using dist by (simp add: ss foldl_setattr_inst map_of_rev_distinct map_add_def)
  qed
  with gs ss show ?thesis
    by (auto simp: foldl_setattr_slots assms(3))
qed

theorem getstate_setstate_roundtrip_witness:
  "\<exists>d. getstate \<lparr>cls_slots = [''category'', ''package''],
                   inst = [''category'' \<mapsto> ''a'', ''package'' \<mapsto> ''b'', ''_verbosity'' \<mapsto> ''0'']\<rparr> = State d
     \<and> fst (setstate \<lparr>cls_slots = [''category'', ''package''], inst = Map.empty\<rparr> d) = None
     \<and> inst (snd (setstate \<lparr>cls_slots = [''category'', ''package''], inst = Map.empty\<rparr> d)) ''category'' = Some ''a''
     \<and> inst (snd (setstate \<lparr>cls_slots = [''category'', ''package''], inst = Map.empty\<rparr> d)) ''package'' = Some ''b''"
proof -
  let ?S = "\<lparr>cls_slots = [''category'', ''package''],
          inst = [''category'' \<mapsto> ''a'', ''package'' \<mapsto> ''b'', ''_verbosity'' \<mapsto> ''0'']\<rparr>"
  let ?F = "\<lparr>cls_slots = [''category'', ''package''], inst = (Map.empty :: string \<rightharpoonup> string)\<rparr>"
  have h1: "cls_slots ?S \<noteq> []" by simp
  have h2: "\<forall>k \<in> set (cls_slots ?S). inst ?S k \<noteq> None" by simp
  have h3: "cls_slots ?F = cls_slots ?S" by simp
  from getstate_setstate_roundtrip [OF h1 h2 h3]
  obtain d where d: "getstate ?S = State d" "fst (setstate ?F d) = None"
    "\<forall>k \<in> set (cls_slots ?S). inst (snd (setstate ?F d)) k = inst ?S k"
    by blast
  from d(3) have "inst (snd (setstate ?F d)) ''category'' = Some ''a''"
    "inst (snd (setstate ?F d)) ''package'' = Some ''b''"
    by simp_all
  with d(1,2) show ?thesis by (intro exI [of _ d] conjI)
qed


text \<open>
  C9 does not hold of every result object. With a declared attribute that is not set,
  \<open>__getstate__\<close> raises AttributeError. For a class that declares no attributes
  (\<open>Result\<close>, \<open>Error\<close> and \<open>Warning\<close> themselves) \<open>__getstate__\<close> hands over to
  \<open>object.__getstate__\<close>, and \<open>__setstate__\<close> refuses the state of an instance that
  a reporter has stamped with \<open>_verbosity\<close>.
\<close>

theorem getstate_setstate_roundtrip_counterexample:
  "getstate \<lparr>cls_slots = [''category'', ''package''], inst = [''category'' \<mapsto> ''a'']\<rparr>
     = Raised AttributeError
   \<and> getstate \<lparr>cls_slots = [], inst = [''_verbosity'' \<mapsto> ''0'']\<rparr> = ObjectGetstate
   \<and> setstate \<lparr>cls_slots = [], inst = Map.empty\<rparr> [(''_verbosity'', ''0'')]
     = (Some TypeError, \<lparr>cls_slots = [], inst = Map.empty\<rparr>)"
  by (simp add: getstate_def setstate_def)

section \<open>Two checks on package sets (checks/cleanup.py, checks/unstable_only.py)\<close>

text \<open>
  The attributes of a package that the two checks read. A package set (the item of the
  \<open>cat/pkg\<close> feed) is the list of the versions of one package, lowest version first.
\<close>

record pkg =
  category :: string
  package :: string
  fullver :: string
  slot :: string
  live :: bool
  pkg_keywords :: "string list"

definition startswith :: "string \<Rightarrow> string \<Rightarrow> bool" where
  "startswith s pre = (take (length pre) s = pre)"

subsection \<open>RedundantVersion\<close>

record redundant_version =
  rv_category :: string
  rv_package :: string
  rv_version :: string
  rv_slot :: string
  rv_later_versions :: "string list"

definition RedundantVersion :: "pkg \<Rightarrow> pkg list \<Rightarrow> redundant_version" where
  "RedundantVersion p higher_pkgs =
     \<lparr>rv_category = category p, rv_package = package p, rv_version = fullver p,
      rv_slot = slot p, rv_later_versions = map fullver higher_pkgs\<rparr>"

text \<open>
  The loop over \<open>reversed(pkgset)\<close>, with the variables \<open>stack\<close> and \<open>bad\<close>. The
  keyword set \<open>curr_set\<close> is a list read as a set.
\<close>

fun rv_scan :: "pkg list \<Rightarrow> (pkg \<times> string list) list \<Rightarrow> (pkg \<times> pkg list) list
    \<Rightarrow> (pkg \<times> pkg list) list" where
  "rv_scan [] stack bad = bad"
| "rv_scan (p # ps) stack bad =
     (if live p then rv_scan ps stack bad
      else
        let curr_set = filter (\<lambda>x. \<not> startswith x ''-'') (pkg_keywords p) in
        if curr_set = [] then rv_scan ps stack bad
        else
          let matches = map fst (filter (\<lambda>(ver, keys). slot ver = slot p \<and>
                                           set curr_set - set keys = {}) stack);
              curr_set' = curr_set @ map (\<lambda>x. ''~'' @ x)
                                         (filter (\<lambda>x. \<not> startswith x ''~'') curr_set)
          in rv_scan ps (stack @ [(p, curr_set')])
               (if matches \<noteq> [] then bad @ [(p, matches)] else bad))"

definition RedundantVersionReport_feed :: "pkg list \<Rightarrow> redundant_version list" where
  "RedundantVersionReport_feed pkgset =
     (if length pkgset = 1 then []
      else map (\<lambda>(p, matches). RedundantVersion p matches) (rev (rv_scan (rev pkgset) [] [])))"

subsection \<open>UnstableOnly\<close>

record unstable_only =
  uo_category :: string
  uo_package :: string
  uo_versions :: "string list"
  uo_arches :: "string list"

definition UnstableOnly :: "pkg list \<Rightarrow> string list \<Rightarrow> unstable_only" where
  "UnstableOnly pkgs arches =
     \<lparr>uo_category = category (hd pkgs), uo_package = package (hd pkgs),
      uo_versions = map fullver pkgs, uo_arches = arches\<rparr>"

text \<open>
  \<open>__init__\<close>: the configured arches, stripped of surrounding whitespace and of leading
  tildes, as a set. The keys of \<open>arch_restricts\<close> are this set in some order; the two
  restrictions stored for an arch test whether the arch, respectively the arch
  prefixed with a tilde, is among the pkg_keywords of a package.
\<close>

definition is_space :: "char \<Rightarrow> bool" where
  "is_space c = (c \<in> set [CHR '' '', CHR 0x09, CHR 0x0A, CHR 0x0B, CHR 0x0C, CHR 0x0D])"

definition strip :: "string \<Rightarrow> string" where
  "strip s = rev (dropWhile is_space (rev (dropWhile is_space s)))"

definition UnstableOnlyReport_init :: "string list \<Rightarrow> string set" where
  "UnstableOnlyReport_init stable_arches =
     set (map (\<lambda>x. dropWhile (\<lambda>c. c = CHR ''~'') (strip x)) stable_arches)"

definition stable_match :: "string \<Rightarrow> pkg \<Rightarrow> bool" where
  "stable_match arch x = (arch \<in> set (pkg_keywords x))"

definition unstable_match :: "string \<Rightarrow> pkg \<Rightarrow> bool" where
  "unstable_match arch x = ((''~'' @ arch) \<in> set (pkg_keywords x))"

text \<open>\<open>d[key].append(v)\<close> on a \<open>defaultdict(list)\<close>.\<close>

fun dict_append :: "('k \<times> 'v list) list \<Rightarrow> 'k \<Rightarrow> 'v \<Rightarrow> ('k \<times> 'v list) list" where
  "dict_append [] key v = [(key, [v])]"
| "dict_append ((k, vs) # d) key v =
     (if k = key then (k, vs @ [v]) # d else (k, vs) # dict_append d key v)"

fun uo_scan :: "string list \<Rightarrow> pkg list \<Rightarrow> (pkg list \<times> string list) list
    \<Rightarrow> (pkg list \<times> string list) list" where
  "uo_scan [] pkgset unstable_arches = unstable_arches"
| "uo_scan (k # ks) pkgset unstable_arches =
     (if list_ex (stable_match k) pkgset then uo_scan ks pkgset unstable_arches
      else
        let unstable = filter (unstable_match k) pkgset in
        if unstable \<noteq> [] then uo_scan ks pkgset (dict_append unstable_arches unstable k)
        else uo_scan ks pkgset unstable_arches)"

definition UnstableOnlyReport_feed :: "string list \<Rightarrow> pkg list \<Rightarrow> unstable_only list" where
  "UnstableOnlyReport_feed arch_restricts pkgset =
     map (\<lambda>(pkgs, arches). UnstableOnly pkgs arches) (uo_scan arch_restricts pkgset [])"

subsection \<open>Properties of the two checks\<close>

text \<open>
  C7. Fed the package set of \<open>a/b\<close> with version 1 and version 2, both keyworded
  \<open>amd64\<close>, both in slot 0 and neither live, the check emits exactly one result: version
  1, later versions (2), slot 0.
\<close>

theorem redundant_version_scenario_A:
  "RedundantVersionReport_feed
     [\<lparr>category = ''a'', package = ''b'', fullver = ''1'', slot = ''0'', live = False, pkg_keywords = [''amd64'']\<rparr>,
      \<lparr>category = ''a'', package = ''b'', fullver = ''2'', slot = ''0'', live = False, pkg_keywords = [''amd64'']\<rparr>]
   = [\<lparr>rv_category = ''a'', rv_package = ''b'', rv_version = ''1'', rv_slot = ''0'', rv_later_versions = [''2'']\<rparr>]"
  by (simp add: RedundantVersionReport_feed_def RedundantVersion_def startswith_def Let_def)

lemma dict_append_keys: "fst ` set (dict_append d key v) = insert key (fst ` set d)"
  by (induction d key v rule: dict_append.induct) auto

lemma dict_append_distinct:
  "distinct (map fst d) \<Longrightarrow> distinct (map fst (dict_append d key v))"
proof (induction d key v rule: dict_append.induct)
  case (1 key v)
  then show ?case by simp
next
  case (2 k vs d key v)
  then show ?case
    using dict_append_keys [of d key v] by auto
qed

lemma dict_append_lookup:
  "map_of (dict_append d key v) =
     (map_of d)(key \<mapsto> (case map_of d key of None \<Rightarrow> [v] | Some vs \<Rightarrow> vs @ [v]))"
  by (induction d key v rule: dict_append.induct) (auto simp: fun_eq_iff)

text \<open>
  Arch \<open>k\<close> is reported under the version tuple \<open>u\<close>: no version is stably keyworded
  \<open>k\<close>, and \<open>u\<close> is the non-empty tuple of the versions keyworded \<open>~k\<close>.
\<close>

definition uo_group :: "pkg list \<Rightarrow> pkg list \<Rightarrow> string \<Rightarrow> bool" where
  "uo_group pkgset u k =
     (\<not> list_ex (stable_match k) pkgset \<and> u \<noteq> [] \<and> filter (unstable_match k) pkgset = u)"

lemma uo_scan_distinct:
  "distinct (map fst d) \<Longrightarrow> distinct (map fst (uo_scan ks pkgset d))"
  by (induction ks pkgset d rule: uo_scan.induct) (auto simp: Let_def dict_append_distinct)

lemma uo_scan_lookup:
  "map_of (uo_scan ks pkgset d) u =
     (case map_of d u of
        None \<Rightarrow> (if filter (uo_group pkgset u) ks = [] then None
                 else Some (filter (uo_group pkgset u) ks))
      | Some vs \<Rightarrow> Some (vs @ filter (uo_group pkgset u) ks))"
proof (induction ks pkgset d rule: uo_scan.induct)
  case (1 pkgset d)
  then show ?case by (simp split: option.splits)
next
  case (2 k ks pkgset d)
  show ?case
  proof (cases "list_ex (stable_match k) pkgset")
    case True
    then have fk: "filter (uo_group pkgset u) (k # ks) = filter (uo_group pkgset u) ks"
      by (simp add: uo_group_def)
    show ?thesis unfolding fk using True 2(1) by simp
  next
    case stable: False
    show ?thesis
    proof (cases "filter (unstable_match k) pkgset = []")
      case True
      then have fk: "filter (uo_group pkgset u) (k # ks) = filter (uo_group pkgset u) ks"
        by (auto simp: uo_group_def)
      show ?thesis unfolding fk using True stable 2(3) by (simp add: Let_def)
    next
      case False
      have g: "uo_group pkgset u k \<longleftrightarrow> filter (unstable_match k) pkgset = u"
        using stable False by (auto simp: uo_group_def)
      note IH = 2(2) [OF stable refl False]
      have step: "uo_scan (k # ks) pkgset d =
          uo_scan ks pkgset (dict_append d (filter (unstable_match k) pkgset) k)"
        using stable False by (simp add: Let_def)
      show ?thesis
      proof (cases "filter (unstable_match k) pkgset = u")
        case True
        with g have fk: "filter (uo_group pkgset u) (k # ks) = k # filter (uo_group pkgset u) ks"
          by simp
        show ?thesis
          unfolding step fk IH using True
          by (cases "map_of d u") (simp_all add: dict_append_lookup)
      next
        case neq: False
        with g have fk: "filter (uo_group pkgset u) (k # ks) = filter (uo_group pkgset u) ks"
          by simp
        show ?thesis
          unfolding step fk IH using neq
          by (cases "map_of d u") (simp_all add: dict_append_lookup)
      qed
    qed
  qed
qed


lemma uo_scan_entries:
  "(u, vs) \<in> set (uo_scan ks pkgset []) \<longleftrightarrow>
     vs = filter (uo_group pkgset u) ks \<and> vs \<noteq> []"
proof -
  have "distinct (map fst (uo_scan ks pkgset []))"
    by (rule uo_scan_distinct) simp
  then have "(u, vs) \<in> set (uo_scan ks pkgset []) \<longleftrightarrow> map_of (uo_scan ks pkgset []) u = Some vs"
    by simp
  then show ?thesis
    by (auto simp: uo_scan_lookup)
qed

lemma uo_scan_key_form:
  assumes "(u, vs) \<in> set (uo_scan ks pkgset [])"
  shows "u \<noteq> [] \<and> (\<exists>k. u = filter (unstable_match k) pkgset)"
proof -
  from assms have "filter (uo_group pkgset u) ks \<noteq> []"
    unfolding uo_scan_entries by blast
  then obtain k where "uo_group pkgset u k"
    by (auto simp: filter_empty_conv)
  then show ?thesis by (auto simp: uo_group_def)
qed

lemma map_filter_inject:
  assumes "distinct (map f xs)" and "map f (filter P xs) = map f (filter Q xs)"
  shows "filter P xs = filter Q xs"
proof -
  from assms(1) have "inj_on f (set xs)" by (simp add: distinct_map)
  then have "inj_on f (set (filter P xs) \<union> set (filter Q xs))"
    by (rule inj_on_subset) auto
  with assms(2) show ?thesis by (simp add: inj_on_map_eq_map)
qed

lemma filter_key_single:
  "distinct (map fst d) \<Longrightarrow> (u, vs) \<in> set d \<Longrightarrow> filter (\<lambda>p. fst p = u) d = [(u, vs)]"
proof (induction d)
  case Nil
  then show ?case by simp
next
  case (Cons p d)
  show ?case
  proof (cases "fst p = u")
    case True
    with Cons.prems have "p = (u, vs)"
      by (cases p) (auto simp: image_iff)
    moreover from True Cons.prems have "filter (\<lambda>p. fst p = u) d = []"
      by (auto simp: filter_empty_conv image_iff)
    ultimately show ?thesis by simp
  next
    case False
    with Cons show ?thesis by auto
  qed
qed

text \<open>
  C8. For a package set (versions pairwise distinct) and a configured arch \<open>a\<close>: when
  some version is stably keyworded \<open>a\<close>, or no version is keyworded \<open>~a\<close>, no result
  lists \<open>a\<close>. Otherwise exactly one result carries the tuple of the versions keyworded
  \<open>~a\<close>, and its arches are exactly the configured arches that have no stable version
  and the same tuple. The version tuples of the results are non-empty and pairwise
  distinct.
\<close>

theorem unstable_only_feed:
  assumes "distinct (map fullver pkgset)" and "a \<in> set arch_restricts"
  shows "(list_ex (stable_match a) pkgset \<or> filter (unstable_match a) pkgset = [] \<longrightarrow>
            (\<forall>r \<in> set (UnstableOnlyReport_feed arch_restricts pkgset). a \<notin> set (uo_arches r)))
       \<and> (\<not> list_ex (stable_match a) pkgset \<and> filter (unstable_match a) pkgset \<noteq> [] \<longrightarrow>
            filter (\<lambda>r. uo_versions r = map fullver (filter (unstable_match a) pkgset))
                   (UnstableOnlyReport_feed arch_restricts pkgset)
            = [UnstableOnly (filter (unstable_match a) pkgset)
                 (filter (\<lambda>b. \<not> list_ex (stable_match b) pkgset \<and>
                              filter (unstable_match b) pkgset = filter (unstable_match a) pkgset)
                         arch_restricts)])
       \<and> distinct (map uo_versions (UnstableOnlyReport_feed arch_restricts pkgset))
       \<and> (\<forall>r \<in> set (UnstableOnlyReport_feed arch_restricts pkgset). uo_versions r \<noteq> [])"
proof -
  define G where "G = uo_scan arch_restricts pkgset []"
  define g where "g = (\<lambda>(pkgs, arches). UnstableOnly pkgs arches)"
  have feed: "UnstableOnlyReport_feed arch_restricts pkgset = map g G"
    by (simp add: UnstableOnlyReport_feed_def G_def g_def)
  have vers: "uo_versions (g p) = map fullver (fst p)" and arch: "uo_arches (g p) = snd p" for p
    by (cases p; simp add: g_def UnstableOnly_def)+
  have dist: "distinct (map fst G)"
    unfolding G_def by (rule uo_scan_distinct) simp
  have key_eq: "map fullver (fst p) = map fullver (fst q) \<longleftrightarrow> fst p = fst q"
    if "p \<in> set G" "q \<in> set G" for p q
  proof -
    from that uo_scan_key_form [of "fst p" "snd p" arch_restricts pkgset]
      uo_scan_key_form [of "fst q" "snd q" arch_restricts pkgset]
    obtain k l where "fst p = filter (unstable_match k) pkgset" "fst q = filter (unstable_match l) pkgset"
      unfolding G_def by auto
    with map_filter_inject [OF assms(1)] show ?thesis by auto
  qed
  have part1: "a \<notin> set (uo_arches r)"
    if "list_ex (stable_match a) pkgset \<or> filter (unstable_match a) pkgset = []"
      and "r \<in> set (UnstableOnlyReport_feed arch_restricts pkgset)" for r
  proof
    assume a: "a \<in> set (uo_arches r)"
    from that(2) obtain u vs where r: "r = g (u, vs)" and "(u, vs) \<in> set G"
      unfolding feed by auto
    then have "vs = filter (uo_group pkgset u) arch_restricts"
      unfolding G_def by (simp add: uo_scan_entries)
    with a r have "uo_group pkgset u a" by (simp add: arch)
    with that(1) show False by (auto simp: uo_group_def)
  qed
  have part2: "filter (\<lambda>r. uo_versions r = map fullver (filter (unstable_match a) pkgset))
                   (UnstableOnlyReport_feed arch_restricts pkgset)
            = [UnstableOnly (filter (unstable_match a) pkgset)
                 (filter (\<lambda>b. \<not> list_ex (stable_match b) pkgset \<and>
                              filter (unstable_match b) pkgset = filter (unstable_match a) pkgset)
                         arch_restricts)]"
    if ns: "\<not> list_ex (stable_match a) pkgset" and ne: "filter (unstable_match a) pkgset \<noteq> []"
  proof -
    define u where "u = filter (unstable_match a) pkgset"
    have grp: "uo_group pkgset u = (\<lambda>b. \<not> list_ex (stable_match b) pkgset \<and>
                              filter (unstable_match b) pkgset = u)"
      using ne by (auto simp: uo_group_def u_def fun_eq_iff)
    have "uo_group pkgset u a" using ns ne by (simp add: uo_group_def u_def)
    with assms(2) have "filter (uo_group pkgset u) arch_restricts \<noteq> []"
      by (auto simp: filter_empty_conv)
    then have mem: "(u, filter (uo_group pkgset u) arch_restricts) \<in> set G"
      unfolding G_def by (simp add: uo_scan_entries)
    have "filter (\<lambda>r. uo_versions r = map fullver u) (map g G)
          = map g (filter (\<lambda>p. map fullver (fst p) = map fullver u) G)"
      by (simp add: filter_map comp_def vers)
    also have "filter (\<lambda>p. map fullver (fst p) = map fullver u) G = filter (\<lambda>p. fst p = u) G"
      using key_eq [OF _ mem] by (intro filter_cong) auto
    also have "\<dots> = [(u, filter (uo_group pkgset u) arch_restricts)]"
      using dist mem by (rule filter_key_single)
    finally show ?thesis
      unfolding feed u_def [symmetric] by (simp add: g_def grp)
  qed
  have part3: "distinct (map uo_versions (UnstableOnlyReport_feed arch_restricts pkgset))"
  proof -
    have "map uo_versions (map g G) = map (map fullver) (map fst G)"
      by (simp add: vers comp_def)
    moreover have "inj_on (map fullver) (set (map fst G))"
      using key_eq by (auto simp: inj_on_def)
    ultimately show ?thesis
      unfolding feed using dist by (simp only: distinct_map)
  qed
  have part4: "uo_versions r \<noteq> []" if "r \<in> set (UnstableOnlyReport_feed arch_restricts pkgset)" for r
  proof -
    from that obtain u vs where r: "r = g (u, vs)" and "(u, vs) \<in> set G"
      unfolding feed by auto
    then have "u \<noteq> []" unfolding G_def using uo_scan_key_form by blast
    with r show ?thesis by (simp add: vers)
  qed
  from part1 part2 part3 part4 show ?thesis by blast
qed

theorem unstable_only_feed_witness:
  "filter (\<lambda>r. uo_versions r = [''1'', ''2''])
     (UnstableOnlyReport_feed [''amd64'', ''x86'']
        [\<lparr>category = ''a'', package = ''b'', fullver = ''1'', slot = ''0'', live = False,
          pkg_keywords = [''~amd64'', ''~x86'']\<rparr>,
         \<lparr>category = ''a'', package = ''b'', fullver = ''2'', slot = ''0'', live = False,
          pkg_keywords = [''~amd64'', ''~x86'']\<rparr>])
   = [\<lparr>uo_category = ''a'', uo_package = ''b'', uo_versions = [''1'', ''2''],
       uo_arches = [''amd64'', ''x86'']\<rparr>]"
proof -
  let ?P = "[\<lparr>category = ''a'', package = ''b'', fullver = ''1'', slot = ''0'', live = False,
          pkg_keywords = [''~amd64'', ''~x86'']\<rparr>,
         \<lparr>category = ''a'', package = ''b'', fullver = ''2'', slot = ''0'', live = False,
          pkg_keywords = [''~amd64'', ''~x86'']\<rparr>]"
  have h1: "distinct (map fullver ?P)" by simp
  have h2: "''amd64'' \<in> set [''amd64'', ''x86'']" by simp
  have h3: "\<not> list_ex (stable_match ''amd64'') ?P \<and> filter (unstable_match ''amd64'') ?P \<noteq> []"
    by (simp add: stable_match_def unstable_match_def)
  note r = unstable_only_feed [OF h1 h2, THEN conjunct2, THEN conjunct1, THEN mp, OF h3]
  then show ?thesis
    by (simp add: stable_match_def unstable_match_def UnstableOnly_def)
qed

section \<open>Check-name filters (base.py, convert_check_filter)\<close>

text \<open>
  \<open>str.lower\<close> on the ASCII letters (qualified names of checks are ASCII).
\<close>

definition lower_char :: "char \<Rightarrow> char" where
  "lower_char c = (let n = (of_char c :: nat) in if 65 \<le> n \<and> n \<le> 90 then char_of (n + 32) else c)"

definition lower :: "string \<Rightarrow> string" where
  "lower s = map lower_char s"

text \<open>\<open>s.split(sep)\<close> for a separator of one character.\<close>

fun split_on :: "char \<Rightarrow> string \<Rightarrow> string list" where
  "split_on sep [] = [[]]"
| "split_on sep (c # cs) =
     (if c = sep then [] # split_on sep cs
      else (case split_on sep cs of w # ws \<Rightarrow> (c # w) # ws | [] \<Rightarrow> [[c]]))"

text \<open>
  \<open>re.compile(tok, re.I).match\<close> belongs to the Python library, not to the
  repository. It is modelled for the patterns built from literal characters, the dot
  and the postfix operators \<open>*\<close> and \<open>+\<close> on one character: \<open>re_parse\<close> is
  \<open>None\<close> for every other pattern (one that \<open>re.compile\<close> rejects, as a leading
  \<open>*\<close>, or one with syntax outside this fragment). \<open>match\<close> succeeds when some prefix
  of the name matches; under \<open>re.I\<close> a literal matches a character of either case, and
  the dot matches every character but the newline.
\<close>

datatype re_atom = Lit char | AnyChar
datatype re_quant = Once | Star | Plus

fun re_parse :: "string \<Rightarrow> (re_atom \<times> re_quant) list option" where
  "re_parse [] = Some []"
| "re_parse (c # cs) =
     (if c \<in> set ''*+?[](){}|^$'' \<or> c = CHR 0x5C then None
      else
        let a = (if c = CHR ''.'' then AnyChar else Lit c) in
        (case cs of
           [] \<Rightarrow> Some [(a, Once)]
         | q # rest \<Rightarrow>
             if q = CHR ''*'' then map_option (\<lambda>p. (a, Star) # p) (re_parse rest)
             else if q = CHR ''+'' then map_option (\<lambda>p. (a, Plus) # p) (re_parse rest)
             else map_option (\<lambda>p. (a, Once) # p) (re_parse cs)))"

fun atom_match :: "re_atom \<Rightarrow> char \<Rightarrow> bool" where
  "atom_match (Lit c) d = (lower_char d = lower_char c)"
| "atom_match AnyChar d = (d \<noteq> CHR 0x0A)"

fun re_match :: "(re_atom \<times> re_quant) list \<Rightarrow> string \<Rightarrow> bool" where
  "re_match [] s = True"
| "re_match ((a, Once) # p) s =
     (case s of [] \<Rightarrow> False | d # ds \<Rightarrow> atom_match a d \<and> re_match p ds)"
| "re_match ((a, Star) # p) s =
     (re_match p s \<or> (case s of [] \<Rightarrow> False | d # ds \<Rightarrow> atom_match a d \<and> re_match ((a, Star) # p) ds))"
| "re_match ((a, Plus) # p) s =
     (case s of [] \<Rightarrow> False | d # ds \<Rightarrow> atom_match a d \<and> re_match ((a, Star) # p) ds)"

text \<open>The filter for a token without \<open>+\<close> and \<open>*\<close>: the closure \<open>func\<close>.\<close>

definition func :: "string list \<Rightarrow> string \<Rightarrow> bool" where
  "func toklist name =
     (let chunks = split_on (CHR ''.'') (lower name) in
      if length toklist > length chunks then False
      else list_ex (\<lambda>i. take (length toklist) (drop i chunks) = toklist) [0..<length chunks])"

definition convert_check_filter :: "string \<Rightarrow> (string \<Rightarrow> bool) option" where
  "convert_check_filter tok0 =
     (let tok = lower tok0 in
      if CHR ''+'' \<in> set tok \<or> CHR ''*'' \<in> set tok
      then map_option re_match (re_parse tok)
      else Some (func (split_on (CHR ''.'') tok)))"

text \<open>The truth value of \<open>convert_check_filter(tok)(name)\<close>.\<close>

definition matches :: "string \<Rightarrow> string \<Rightarrow> bool option" where
  "matches tok name = map_option (\<lambda>f. f name) (convert_check_filter tok)"


lemma lower_char_cases:
  "lower_char c = c \<or> (65 \<le> (of_char c :: nat) \<and> (of_char c :: nat) \<le> 90 \<and>
      (of_char (lower_char c) :: nat) = of_char c + 32)"
  by (simp add: lower_char_def Let_def)

lemma lower_char_idem: "lower_char (lower_char c) = lower_char c"
proof -
  from lower_char_cases [of c] show ?thesis
  proof
    assume "lower_char c = c"
    then show ?thesis by simp
  next
    assume "65 \<le> (of_char c :: nat) \<and> (of_char c :: nat) \<le> 90 \<and>
      (of_char (lower_char c) :: nat) = of_char c + 32"
    then have "\<not> (of_char (lower_char c) :: nat) \<le> 90" by simp
    then show ?thesis by (subst (1) lower_char_def) (simp add: Let_def)
  qed
qed

lemma lower_char_eq_low:
  assumes "(of_char d :: nat) < 65"
  shows "lower_char c = d \<longleftrightarrow> c = d"
proof
  assume e: "lower_char c = d"
  from lower_char_cases [of c] show "c = d"
  proof
    assume "lower_char c = c"
    with e show ?thesis by simp
  next
    assume "65 \<le> (of_char c :: nat) \<and> (of_char c :: nat) \<le> 90 \<and>
      (of_char (lower_char c) :: nat) = of_char c + 32"
    with e assms show ?thesis by simp
  qed
next
  assume "c = d"
  with assms show "lower_char c = d" by (simp add: lower_char_def Let_def)
qed

lemma eq_char_of_iff: "c = char_of n \<longleftrightarrow> take_bit 8 n = of_char c"
  using char_of_eq_iff [of n c] by auto

lemma lower_idem: "lower (lower s) = lower s"
  by (simp add: lower_def lower_char_idem)

lemma atom_match_lower: "atom_match a (lower_char d) = atom_match a d"
proof (cases a)
  case (Lit c)
  then show ?thesis by (simp add: lower_char_idem)
next
  case AnyChar
  have "(of_char (CHR 0x0A) :: nat) < 65" by simp
  from lower_char_eq_low [OF this, of d] AnyChar show ?thesis by simp
qed

lemma re_match_lower: "re_match p (lower s) = re_match p s"
proof (induction p s rule: re_match.induct)
  case (1 s)
  then show ?case by simp
next
  case (2 a p s)
  then show ?case by (cases s) (simp_all add: lower_def atom_match_lower)
next
  case (3 a p s)
  then show ?case by (cases s) (simp_all add: lower_def atom_match_lower)
next
  case (4 a p s)
  then show ?case by (cases s) (simp_all add: lower_def atom_match_lower)
qed

lemma func_lower: "func toklist (lower name) = func toklist name"
  by (simp add: func_def lower_idem)

lemma split_on_nonempty: "split_on sep s \<noteq> []"
  by (induction s) (auto split: list.splits)

lemma lower_contains:
  assumes "(of_char d :: nat) < 65"
  shows "d \<in> set (lower tok) \<longleftrightarrow> d \<in> set tok"
proof -
  have "lower_char c = d \<longleftrightarrow> c = d" for c
    by (rule lower_char_eq_low [OF assms])
  then have "d \<in> lower_char ` set tok \<longleftrightarrow> d \<in> set tok"
    by (metis image_iff)
  then show ?thesis by (simp add: lower_def)
qed

lemma slice_search:
  assumes "toklist \<noteq> []"
  shows "(\<not> length toklist > length chunks \<and>
          list_ex (\<lambda>i. take (length toklist) (drop i chunks) = toklist) [0..<length chunks])
         \<longleftrightarrow> (\<exists>pre post. chunks = pre @ toklist @ post)"
proof
  assume "\<not> length toklist > length chunks \<and>
          list_ex (\<lambda>i. take (length toklist) (drop i chunks) = toklist) [0..<length chunks]"
  then obtain i where "take (length toklist) (drop i chunks) = toklist"
    by (auto simp: list_ex_iff)
  then have "chunks = take i chunks @ toklist @ drop (length toklist) (drop i chunks)"
    by (metis append_take_drop_id)
  then show "\<exists>pre post. chunks = pre @ toklist @ post" by blast
next
  assume "\<exists>pre post. chunks = pre @ toklist @ post"
  then obtain pre post where c: "chunks = pre @ toklist @ post" by blast
  with assms have "length pre < length chunks" by (cases toklist) simp_all
  moreover from c have "take (length toklist) (drop (length pre) chunks) = toklist" by simp
  ultimately have "list_ex (\<lambda>i. take (length toklist) (drop i chunks) = toklist) [0..<length chunks]"
    unfolding list_ex_iff by (intro bexI [of _ "length pre"]) simp_all
  with c show "\<not> length toklist > length chunks \<and>
          list_ex (\<lambda>i. take (length toklist) (drop i chunks) = toklist) [0..<length chunks]"
    by simp
qed

lemma func_iff:
  "toklist \<noteq> [] \<Longrightarrow>
   func toklist name \<longleftrightarrow> (\<exists>pre post. split_on (CHR ''.'') (lower name) = pre @ toklist @ post)"
  using slice_search [of toklist "split_on (CHR ''.'') (lower name)"]
  by (auto simp: func_def Let_def)

lemma matches_cases:
  "matches tok name =
     (if CHR ''+'' \<in> set tok \<or> CHR ''*'' \<in> set tok
      then map_option (\<lambda>p. re_match p name) (re_parse (lower tok))
      else Some (\<exists>pre post. split_on (CHR ''.'') (lower name)
                               = pre @ split_on (CHR ''.'') (lower tok) @ post))"
proof -
  have "(of_char (CHR ''+'') :: nat) < 65" "(of_char (CHR ''*'') :: nat) < 65" by simp_all
  then have c: "CHR ''+'' \<in> set (lower tok) \<longleftrightarrow> CHR ''+'' \<in> set tok"
    "CHR ''*'' \<in> set (lower tok) \<longleftrightarrow> CHR ''*'' \<in> set tok"
    by (simp_all add: lower_contains)
  show ?thesis
    unfolding matches_def convert_check_filter_def Let_def c
    by (simp add: option.map_comp comp_def func_iff split_on_nonempty)
qed

lemma matches_lower: "matches tok name = matches (lower tok) (lower name)"
proof -
  have "matches tok name = matches tok (lower name)"
    unfolding matches_def convert_check_filter_def Let_def
    by (simp add: option.map_comp comp_def func_lower re_match_lower)
  also have "\<dots> = matches (lower tok) (lower name)"
    unfolding matches_def convert_check_filter_def Let_def by (simp add: lower_idem)
  finally show ?thesis .
qed

text \<open>
  C6. The four examples of the docstring hold. Matching is case-insensitive in the token
  and in the name. A token with \<open>+\<close> or \<open>*\<close> is matched as a regular expression;
  any other token matches exactly when its dot-separated components are a run of
  consecutive components of the name.
\<close>

theorem check_filter_matches:
  "matches ''foo'' ''a.foo.b'' = Some True
   \<and> matches ''foo'' ''a.foobar'' = Some False
   \<and> matches ''foo.*'' ''a.foobar'' = Some False
   \<and> matches ''foo.*'' ''foobar'' = Some True
   \<and> (lower tok = lower tok' \<and> lower name = lower name' \<longrightarrow> matches tok name = matches tok' name')
   \<and> (CHR ''+'' \<in> set tok \<or> CHR ''*'' \<in> set tok \<longrightarrow>
        matches tok name = map_option (\<lambda>p. re_match p name) (re_parse (lower tok)))
   \<and> (\<not> (CHR ''+'' \<in> set tok \<or> CHR ''*'' \<in> set tok) \<longrightarrow>
        matches tok name = Some (\<exists>pre post. split_on (CHR ''.'') (lower name)
                                  = pre @ split_on (CHR ''.'') (lower tok) @ post))"
proof -
  have e1: "matches ''foo'' ''a.foo.b'' = Some True"
    by (simp add: matches_def convert_check_filter_def func_def lower_def lower_char_def Let_def)
  have e2: "matches ''foo'' ''a.foobar'' = Some False"
    by (simp add: matches_def convert_check_filter_def func_def lower_def lower_char_def Let_def)
  have e3: "matches ''foo.*'' ''a.foobar'' = Some False"
    by (simp add: matches_def convert_check_filter_def func_def lower_def lower_char_def Let_def)
  have e4: "matches ''foo.*'' ''foobar'' = Some True"
    by (simp add: matches_def convert_check_filter_def func_def lower_def lower_char_def Let_def)
  have ci: "matches tok name = matches tok' name'" if "lower tok = lower tok'" "lower name = lower name'"
    using that matches_lower [of tok name] matches_lower [of tok' name'] by simp
  have g5: "lower tok = lower tok' \<and> lower name = lower name' \<longrightarrow> matches tok name = matches tok' name'"
    using ci by blast
  have g6: "CHR ''+'' \<in> set tok \<or> CHR ''*'' \<in> set tok \<longrightarrow>
        matches tok name = map_option (\<lambda>p. re_match p name) (re_parse (lower tok))"
    by (simp add: matches_cases)
  have g7: "\<not> (CHR ''+'' \<in> set tok \<or> CHR ''*'' \<in> set tok) \<longrightarrow>
        matches tok name = Some (\<exists>pre post. split_on (CHR ''.'') (lower name)
                                  = pre @ split_on (CHR ''.'') (lower tok) @ post)"
    by (simp add: matches_cases)
  from e1 e2 e3 e4 g5 g6 g7 show ?thesis by (intro conjI)
qed

theorem check_filter_matches_witness:
  "matches ''FOO'' ''A.Foo.b'' = matches ''foo'' ''a.foo.B''
   \<and> matches ''Foo.*'' ''FOObar'' = map_option (\<lambda>p. re_match p ''FOObar'') (re_parse ''foo.*'')
   \<and> matches ''cleanup'' ''pkgcheck.checks.cleanup.RedundantVersionReport'' = Some True"
proof -
  have l: "lower ''FOO'' = lower ''foo'' \<and> lower ''A.Foo.b'' = lower ''a.foo.B''"
    by (simp add: lower_def lower_char_def char_of_eq_iff eq_char_of_iff)
  have a: "matches ''FOO'' ''A.Foo.b'' = matches ''foo'' ''a.foo.B''"
    using check_filter_matches [of "''FOO''" "''foo''" "''A.Foo.b''" "''a.foo.B''"] l by (simp only:)
  have r: "CHR ''+'' \<in> set ''Foo.*'' \<or> CHR ''*'' \<in> set ''Foo.*''" by simp
  have lf: "lower ''Foo.*'' = ''foo.*''" by (simp add: lower_def lower_char_def char_of_eq_iff)
  have b: "matches ''Foo.*'' ''FOObar'' = map_option (\<lambda>p. re_match p ''FOObar'') (re_parse ''foo.*'')"
    using check_filter_matches [of "''Foo.*''" "''Foo.*''" "''FOObar''" "''FOObar''"] r lf by (simp only:)
  have n: "\<not> (CHR ''+'' \<in> set ''cleanup'' \<or> CHR ''*'' \<in> set ''cleanup'')" by simp
  have sp: "split_on (CHR ''.'') (lower ''pkgcheck.checks.cleanup.RedundantVersionReport'')
      = [''pkgcheck'', ''checks''] @ split_on (CHR ''.'') (lower ''cleanup'') @ [''redundantversionreport'']"
    by (simp add: lower_def lower_char_def char_of_eq_iff)
  have ex: "\<exists>pre post. split_on (CHR ''.'') (lower ''pkgcheck.checks.cleanup.RedundantVersionReport'')
      = pre @ split_on (CHR ''.'') (lower ''cleanup'') @ post"
    unfolding sp by (intro exI) (rule refl)
  note i7 = check_filter_matches [of "''cleanup''" "''cleanup''"
      "''pkgcheck.checks.cleanup.RedundantVersionReport''" "''x''",
      THEN conjunct2, THEN conjunct2, THEN conjunct2, THEN conjunct2, THEN conjunct2,
      THEN conjunct2, THEN mp, OF n]
  have c: "matches ''cleanup'' ''pkgcheck.checks.cleanup.RedundantVersionReport'' = Some True"
    unfolding i7 using ex by (simp only: simp_thms)
  from a b c show ?thesis by (intro conjI)
qed

section \<open>The check runner (base.py, class CheckRunner)\<close>

text \<open>
  How a call of \<open>start\<close> or \<open>feed\<close> on a child ends: it returns, it raises
  \<open>MetadataException\<close> (with the package, the attribute and the underlying error), or
  it raises any other exception, which the runner does not catch.
\<close>

datatype 'e raised = Returned | MetadataException pkg string 'e | OtherException

record metadata_error =
  me_category :: string
  me_package :: string
  me_version :: string
  me_attr :: string
  me_msg :: string

definition MetadataError :: "pkg \<Rightarrow> string \<Rightarrow> string \<Rightarrow> metadata_error" where
  "MetadataError p attr msg =
     \<lparr>me_category = category p, me_package = package p, me_version = fullver p,
      me_attr = attr, me_msg = msg\<rparr>"

text \<open>
  What the reporter receives through \<open>add_report\<close>: a result reported by a child, or
  the \<open>MetadataError\<close> that the runner builds in its exception handler.
\<close>

datatype 'r report = ChildReport 'r | RunnerReport metadata_error

text \<open>\<open>sep.join(xs)\<close>; the message is \<open>': '.join(str(e.error).split('\\n'))\<close>.\<close>

fun join :: "string \<Rightarrow> string list \<Rightarrow> string" where
  "join sep [] = []"
| "join sep [x] = x"
| "join sep (x # y # ys) = x @ sep @ join sep (y # ys)"

definition error_str :: "('e \<Rightarrow> string) \<Rightarrow> 'e \<Rightarrow> string" where
  "error_str str_of e = join '': '' (split_on (CHR 0x0A) (str_of e))"

text \<open>
  A runner holds its children and the set \<open>_metadata_errors\<close>. A child is a value of
  type \<open>'c\<close> (the object with its state); calling it gives the child afterwards, the
  results it reported during the call, and how the call ended.
\<close>

record ('c, 'e) check_runner =
  checks :: "'c list"
  metadata_errors :: "(pkg \<times> 'e) set"

definition CheckRunner :: "'c list \<Rightarrow> ('c, 'e) check_runner" where
  "CheckRunner cs = \<lparr>checks = cs, metadata_errors = {}\<rparr>"

text \<open>The loop \<open>for check in self.checks\<close> shared by \<open>start\<close> and \<open>feed\<close>; the last
  component tells whether an exception other than \<open>MetadataException\<close> escaped.\<close>

fun runner_loop :: "('c \<Rightarrow> 'c \<times> 'r list \<times> 'e raised) \<Rightarrow> ('e \<Rightarrow> string) \<Rightarrow> 'c list
    \<Rightarrow> (pkg \<times> 'e) set \<Rightarrow> 'r report list \<Rightarrow> 'c list \<times> (pkg \<times> 'e) set \<times> 'r report list \<times> bool" where
  "runner_loop call str_of [] seen reporter = ([], seen, reporter, False)"
| "runner_loop call str_of (check # rest) seen reporter =
     (case call check of
        (check', out, Returned) \<Rightarrow>
          (case runner_loop call str_of rest seen (reporter @ map ChildReport out) of
             (rest', seen', reporter', esc) \<Rightarrow> (check' # rest', seen', reporter', esc))
      | (check', out, MetadataException p attr e) \<Rightarrow>
          (if (p, e) \<notin> seen then
             (case runner_loop call str_of rest (insert (p, e) seen)
                     (reporter @ map ChildReport out
                        @ [RunnerReport (MetadataError p attr (error_str str_of e))]) of
                (rest', seen', reporter', esc) \<Rightarrow> (check' # rest', seen', reporter', esc))
           else
             (case runner_loop call str_of rest seen (reporter @ map ChildReport out) of
                (rest', seen', reporter', esc) \<Rightarrow> (check' # rest', seen', reporter', esc)))
      | (check', out, OtherException) \<Rightarrow>
          (check' # rest, seen, reporter @ map ChildReport out, True))"

definition CheckRunner_start :: "('c \<Rightarrow> 'c \<times> 'r list \<times> 'e raised) \<Rightarrow> ('e \<Rightarrow> string)
    \<Rightarrow> ('c, 'e) check_runner \<Rightarrow> 'r report list \<Rightarrow> ('c, 'e) check_runner \<times> 'r report list \<times> bool" where
  "CheckRunner_start cstart str_of self reporter =
     (case runner_loop cstart str_of (checks self) (metadata_errors self) reporter of
        (cs, seen, reporter', esc) \<Rightarrow> (self\<lparr>checks := cs, metadata_errors := seen\<rparr>, reporter', esc))"

definition CheckRunner_feed :: "('i \<Rightarrow> 'c \<Rightarrow> 'c \<times> 'r list \<times> 'e raised) \<Rightarrow> ('e \<Rightarrow> string)
    \<Rightarrow> 'i \<Rightarrow> ('c, 'e) check_runner \<Rightarrow> 'r report list \<Rightarrow> ('c, 'e) check_runner \<times> 'r report list \<times> bool" where
  "CheckRunner_feed cfeed str_of item self reporter =
     (case runner_loop (cfeed item) str_of (checks self) (metadata_errors self) reporter of
        (cs, seen, reporter', esc) \<Rightarrow> (self\<lparr>checks := cs, metadata_errors := seen\<rparr>, reporter', esc))"

text \<open>One run of a runner: \<open>start\<close> and \<open>feed\<close> calls in some order, until one lets an
  exception escape.\<close>

datatype 'i event = Start | Feed 'i

fun run_events :: "('c \<Rightarrow> 'c \<times> 'r list \<times> 'e raised) \<Rightarrow> ('i \<Rightarrow> 'c \<Rightarrow> 'c \<times> 'r list \<times> 'e raised)
    \<Rightarrow> ('e \<Rightarrow> string) \<Rightarrow> 'i event list \<Rightarrow> ('c, 'e) check_runner \<Rightarrow> 'r report list
    \<Rightarrow> ('c, 'e) check_runner \<times> 'r report list \<times> bool" where
  "run_events cstart cfeed str_of [] self reporter = (self, reporter, False)"
| "run_events cstart cfeed str_of (ev # evs) self reporter =
     (case (case ev of Start \<Rightarrow> CheckRunner_start cstart str_of self reporter
                     | Feed item \<Rightarrow> CheckRunner_feed cfeed str_of item self reporter) of
        (self', reporter', esc) \<Rightarrow>
          if esc then (self', reporter', True)
          else run_events cstart cfeed str_of evs self' reporter')"


subsection \<open>Deduplication of metadata errors\<close>

text \<open>
  What the children do during a run, told without the runner: every child receives every
  call. \<open>raised_in\<close> lists the metadata exceptions in the order in which they are
  raised, \<open>children_after\<close> gives the children at the end.
\<close>

definition call_of :: "('c \<Rightarrow> 'c \<times> 'r list \<times> 'e raised) \<Rightarrow> ('i \<Rightarrow> 'c \<Rightarrow> 'c \<times> 'r list \<times> 'e raised)
    \<Rightarrow> 'i event \<Rightarrow> 'c \<Rightarrow> 'c \<times> 'r list \<times> 'e raised" where
  "call_of cstart cfeed ev = (case ev of Start \<Rightarrow> cstart | Feed item \<Rightarrow> cfeed item)"

fun metadata_excs :: "'e raised list \<Rightarrow> (pkg \<times> string \<times> 'e) list" where
  "metadata_excs [] = []"
| "metadata_excs (MetadataException p attr e # xs) = (p, attr, e) # metadata_excs xs"
| "metadata_excs (_ # xs) = metadata_excs xs"

fun raised_in :: "('i event \<Rightarrow> 'c \<Rightarrow> 'c \<times> 'r list \<times> 'e raised) \<Rightarrow> 'i event list \<Rightarrow> 'c list
    \<Rightarrow> (pkg \<times> string \<times> 'e) list" where
  "raised_in call [] cs = []"
| "raised_in call (ev # evs) cs =
     metadata_excs (map (\<lambda>c. snd (snd (call ev c))) cs)
       @ raised_in call evs (map (\<lambda>c. fst (call ev c)) cs)"

fun children_after :: "('i event \<Rightarrow> 'c \<Rightarrow> 'c \<times> 'r list \<times> 'e raised) \<Rightarrow> 'i event list \<Rightarrow> 'c list
    \<Rightarrow> 'c list" where
  "children_after call [] cs = cs"
| "children_after call (ev # evs) cs = children_after call evs (map (\<lambda>c. fst (call ev c)) cs)"

text \<open>The elements whose key has not been seen before, in order.\<close>

fun first_occ :: "'k set \<Rightarrow> ('a \<Rightarrow> 'k) \<Rightarrow> 'a list \<Rightarrow> 'a list" where
  "first_occ seen key [] = []"
| "first_occ seen key (x # xs) =
     (if key x \<in> seen then first_occ seen key xs
      else x # first_occ (insert (key x) seen) key xs)"

definition exc_key :: "pkg \<times> string \<times> 'e \<Rightarrow> pkg \<times> 'e" where
  "exc_key x = (fst x, snd (snd x))"

definition synthetic :: "('e \<Rightarrow> string) \<Rightarrow> pkg \<times> string \<times> 'e \<Rightarrow> metadata_error" where
  "synthetic str_of x = MetadataError (fst x) (fst (snd x)) (error_str str_of (snd (snd x)))"

lemma exc_key_simp [simp]: "exc_key (p, attr, e) = (p, e)"
  by (simp add: exc_key_def)

lemma synthetic_simp [simp]:
  "synthetic str_of (p, attr, e) = MetadataError p attr (error_str str_of e)"
  by (simp add: synthetic_def)

fun runner_reports :: "'r report list \<Rightarrow> metadata_error list" where
  "runner_reports [] = []"
| "runner_reports (RunnerReport m # rs) = m # runner_reports rs"
| "runner_reports (ChildReport r # rs) = runner_reports rs"

fun child_reports :: "'r report list \<Rightarrow> 'r list" where
  "child_reports [] = []"
| "child_reports (ChildReport r # rs) = r # child_reports rs"
| "child_reports (RunnerReport m # rs) = child_reports rs"

lemma child_reports_append [simp]:
  "child_reports (xs @ ys) = child_reports xs @ child_reports ys"
  by (induction xs rule: child_reports.induct) simp_all

lemma child_reports_child [simp]: "child_reports (map ChildReport out) = out"
  by (induction out) simp_all

lemma runner_reports_append [simp]:
  "runner_reports (xs @ ys) = runner_reports xs @ runner_reports ys"
  by (induction xs rule: runner_reports.induct) simp_all

lemma runner_reports_child [simp]: "runner_reports (map ChildReport out) = []"
  by (induction out) simp_all

lemma first_occ_append:
  "first_occ seen key (xs @ ys) = first_occ seen key xs @ first_occ (seen \<union> key ` set xs) key ys"
  by (induction xs arbitrary: seen) (auto simp: insert_absorb)

lemma first_occ_keys: "key ` set (first_occ seen key xs) = key ` set xs - seen"
  by (induction xs arbitrary: seen) auto

lemma first_occ_distinct: "distinct (map key (first_occ seen key xs))"
proof (induction xs arbitrary: seen)
  case Nil
  then show ?case by simp
next
  case (Cons x xs)
  have "key x \<notin> key ` set (first_occ (insert (key x) seen) key xs)"
    by (simp add: first_occ_keys)
  with Cons show ?case by simp
qed

lemma first_occ_subset: "set (first_occ seen key xs) \<subseteq> set xs"
  by (induction xs arbitrary: seen) auto

lemma runner_loop_pass:
  assumes "runner_loop call str_of cs seen rep = (cs', seen', rep', False)"
  shows "cs' = map (\<lambda>c. fst (call c)) cs
       \<and> seen' = seen \<union> exc_key ` set (metadata_excs (map (\<lambda>c. snd (snd (call c))) cs))
       \<and> (\<exists>new. rep' = rep @ new \<and>
             child_reports new = concat (map (\<lambda>c. fst (snd (call c))) cs) \<and>
             runner_reports new = map (synthetic str_of)
               (first_occ seen exc_key (metadata_excs (map (\<lambda>c. snd (snd (call c))) cs))))"
  using assms
proof (induction cs arbitrary: seen rep cs' seen' rep')
  case Nil
  then show ?case by simp
next
  case (Cons c cs)
  obtain c1 out ex where call: "call c = (c1, out, ex)" by (cases "call c") auto
  show ?case
  proof (cases ex)
    case Returned
    with Cons.prems call obtain rest where
      loop: "runner_loop call str_of cs seen (rep @ map ChildReport out) = (rest, seen', rep', False)"
      and cs': "cs' = c1 # rest"
      by (auto split: prod.splits)
    from Cons.IH [OF loop] obtain new where new: "rest = map (\<lambda>c. fst (call c)) cs"
      "seen' = seen \<union> exc_key ` set (metadata_excs (map (\<lambda>c. snd (snd (call c))) cs))"
      "rep' = (rep @ map ChildReport out) @ new"
        "child_reports new = concat (map (\<lambda>c. fst (snd (call c))) cs)"
      "runner_reports new = map (synthetic str_of)
               (first_occ seen exc_key (metadata_excs (map (\<lambda>c. snd (snd (call c))) cs)))"
      by blast
    have "rep' = rep @ (map ChildReport out @ new)" using new(3) by simp
    moreover have "runner_reports (map ChildReport out @ new) = map (synthetic str_of)
               (first_occ seen exc_key (metadata_excs (map (\<lambda>c. snd (snd (call c))) (c # cs))))"
      using new(5) call Returned by simp
    moreover have "child_reports (map ChildReport out @ new) = concat (map (\<lambda>c. fst (snd (call c))) (c # cs))"
      using new(4) call by simp
    ultimately show ?thesis
      using new(1,2) cs' call Returned by auto
  next
    case (MetadataException p attr e)
    show ?thesis
    proof (cases "(p, e) \<in> seen")
      case True
      with Cons.prems call MetadataException obtain rest where
        loop: "runner_loop call str_of cs seen (rep @ map ChildReport out) = (rest, seen', rep', False)"
        and cs': "cs' = c1 # rest"
        by (auto split: prod.splits)
      from Cons.IH [OF loop] obtain new where new: "rest = map (\<lambda>c. fst (call c)) cs"
        "seen' = seen \<union> exc_key ` set (metadata_excs (map (\<lambda>c. snd (snd (call c))) cs))"
        "rep' = (rep @ map ChildReport out) @ new"
        "child_reports new = concat (map (\<lambda>c. fst (snd (call c))) cs)"
        "runner_reports new = map (synthetic str_of)
               (first_occ seen exc_key (metadata_excs (map (\<lambda>c. snd (snd (call c))) cs)))"
        by blast
      have "rep' = rep @ (map ChildReport out @ new)" using new(3) by simp
      moreover have "runner_reports (map ChildReport out @ new) = map (synthetic str_of)
               (first_occ seen exc_key (metadata_excs (map (\<lambda>c. snd (snd (call c))) (c # cs))))"
        using new(5) call MetadataException True by simp
      moreover have "child_reports (map ChildReport out @ new) = concat (map (\<lambda>c. fst (snd (call c))) (c # cs))"
        using new(4) call by simp
      ultimately show ?thesis
        using new(1,2) cs' call MetadataException True by auto
    next
      case False
      let ?m = "RunnerReport (MetadataError p attr (error_str str_of e))"
      from False Cons.prems call MetadataException obtain rest where
        loop: "runner_loop call str_of cs (insert (p, e) seen) (rep @ map ChildReport out @ [?m])
                 = (rest, seen', rep', False)"
        and cs': "cs' = c1 # rest"
        by (auto split: prod.splits)
      from Cons.IH [OF loop] obtain new where new: "rest = map (\<lambda>c. fst (call c)) cs"
        "seen' = insert (p, e) seen \<union> exc_key ` set (metadata_excs (map (\<lambda>c. snd (snd (call c))) cs))"
        "rep' = (rep @ map ChildReport out @ [?m]) @ new"
        "child_reports new = concat (map (\<lambda>c. fst (snd (call c))) cs)"
        "runner_reports new = map (synthetic str_of)
               (first_occ (insert (p, e) seen) exc_key (metadata_excs (map (\<lambda>c. snd (snd (call c))) cs)))"
        by blast
      have "rep' = rep @ (map ChildReport out @ [?m] @ new)" using new(3) by simp
      moreover have "runner_reports (map ChildReport out @ [?m] @ new) = map (synthetic str_of)
               (first_occ seen exc_key (metadata_excs (map (\<lambda>c. snd (snd (call c))) (c # cs))))"
        using new(5) call MetadataException False by simp
      moreover have "child_reports (map ChildReport out @ [?m] @ new) = concat (map (\<lambda>c. fst (snd (call c))) (c # cs))"
        using new(4) call by simp
      ultimately show ?thesis
        using new(1,2) cs' call MetadataException False by auto
    qed
  next
    case OtherException
    with Cons.prems call show ?thesis by simp
  qed
qed


lemma run_events_pass:
  assumes "run_events cstart cfeed str_of evs self rep = (self', rep', False)"
  shows "checks self' = children_after (call_of cstart cfeed) evs (checks self)
       \<and> (\<exists>new. rep' = rep @ new \<and>
             runner_reports new = map (synthetic str_of)
               (first_occ (metadata_errors self) exc_key
                  (raised_in (call_of cstart cfeed) evs (checks self))))"
  using assms
proof (induction evs arbitrary: self rep)
  case Nil
  then show ?case by simp
next
  case (Cons ev evs)
  let ?call = "call_of cstart cfeed"
  obtain cs1 seen1 rep1 esc where
    loop: "runner_loop (?call ev) str_of (checks self) (metadata_errors self) rep = (cs1, seen1, rep1, esc)"
    by (cases "runner_loop (?call ev) str_of (checks self) (metadata_errors self) rep") auto
  define self1 where "self1 = self\<lparr>checks := cs1, metadata_errors := seen1\<rparr>"
  have step: "(case ev of Start \<Rightarrow> CheckRunner_start cstart str_of self rep
                     | Feed item \<Rightarrow> CheckRunner_feed cfeed str_of item self rep) = (self1, rep1, esc)"
    using loop by (cases ev) (simp_all add: CheckRunner_start_def CheckRunner_feed_def call_of_def self1_def)
  with Cons.prems have esc: "esc = False"
    and rest: "run_events cstart cfeed str_of evs self1 rep1 = (self', rep', False)"
    by (auto split: if_splits)
  let ?X = "metadata_excs (map (\<lambda>c. snd (snd (?call ev c))) (checks self))"
  from runner_loop_pass [OF loop [unfolded esc]] obtain new1 where
    p1: "cs1 = map (\<lambda>c. fst (?call ev c)) (checks self)"
        "seen1 = metadata_errors self \<union> exc_key ` set ?X"
        "rep1 = rep @ new1"
        "runner_reports new1 = map (synthetic str_of) (first_occ (metadata_errors self) exc_key ?X)"
    by blast
  from Cons.IH [OF rest] obtain new2 where
    p2: "checks self' = children_after ?call evs (checks self1)"
        "rep' = rep1 @ new2"
        "runner_reports new2 = map (synthetic str_of)
               (first_occ (metadata_errors self1) exc_key (raised_in ?call evs (checks self1)))"
    by blast
  have s1: "checks self1 = cs1" "metadata_errors self1 = seen1" by (simp_all add: self1_def)
  have "rep' = rep @ (new1 @ new2)" using p1(3) p2(2) by simp
  moreover have "runner_reports (new1 @ new2) = map (synthetic str_of)
               (first_occ (metadata_errors self) exc_key (raised_in ?call (ev # evs) (checks self)))"
    using p1(1,2,4) p2(3) s1 by (simp add: first_occ_append)
  moreover have "checks self' = children_after ?call (ev # evs) (checks self)"
    using p2(1) s1 p1(1) by simp
  ultimately show ?case by blast
qed

text \<open>
  One runner alone: in a sequence of \<open>start\<close> and \<open>feed\<close> calls on one runner in which
  no other exception escapes, the \<open>MetadataError\<close> results that this runner builds
  come from a list \<open>firsts\<close> of raised metadata exceptions that holds every pair
  (package, error) raised by its children exactly once; every child receives every call,
  whatever the other children raise.
\<close>

theorem checkrunner_metadata_dedup:
  assumes "run_events cstart cfeed str_of evs (CheckRunner cs) rep = (self', rep', False)"
  shows "\<exists>new firsts. rep' = rep @ new
       \<and> runner_reports new = map (synthetic str_of) firsts
       \<and> distinct (map exc_key firsts)
       \<and> exc_key ` set firsts = exc_key ` set (raised_in (call_of cstart cfeed) evs cs)
       \<and> set firsts \<subseteq> set (raised_in (call_of cstart cfeed) evs cs)
       \<and> checks self' = children_after (call_of cstart cfeed) evs cs"
proof -
  let ?R = "raised_in (call_of cstart cfeed) evs cs"
  from run_events_pass [OF assms] obtain new where
    "checks self' = children_after (call_of cstart cfeed) evs cs"
    "rep' = rep @ new"
    "runner_reports new = map (synthetic str_of) (first_occ {} exc_key ?R)"
    by (auto simp: CheckRunner_def)
  moreover have "distinct (map exc_key (first_occ {} exc_key ?R))"
    by (rule first_occ_distinct)
  moreover have "exc_key ` set (first_occ {} exc_key ?R) = exc_key ` set ?R"
    by (simp add: first_occ_keys)
  moreover have "set (first_occ {} exc_key ?R) \<subseteq> set ?R"
    by (rule first_occ_subset)
  ultimately show ?thesis by blast
qed


theorem checkrunner_metadata_dedup_witness:
  "run_events (\<lambda>c. (c, [], Returned))
     (\<lambda>item c. (Suc c, [item], MetadataException
        \<lparr>category = ''a'', package = ''b'', fullver = ''1'', slot = ''0'', live = False,
         pkg_keywords = []\<rparr> ''keywords'' ''bad''))
     id [Start, Feed ''x'', Feed ''y''] (CheckRunner [0 :: nat, 5]) []
   = (\<lparr>checks = [2, 7],
       metadata_errors = {(\<lparr>category = ''a'', package = ''b'', fullver = ''1'', slot = ''0'',
                            live = False, pkg_keywords = []\<rparr>, ''bad'')}\<rparr>,
      [ChildReport ''x'',
       RunnerReport \<lparr>me_category = ''a'', me_package = ''b'', me_version = ''1'',
                     me_attr = ''keywords'', me_msg = ''bad''\<rparr>,
       ChildReport ''x'', ChildReport ''y'', ChildReport ''y''], False)
   \<and> (\<exists>new firsts.
         [ChildReport ''x'',
          RunnerReport \<lparr>me_category = ''a'', me_package = ''b'', me_version = ''1'',
                        me_attr = ''keywords'', me_msg = ''bad''\<rparr>,
          ChildReport ''x'', ChildReport ''y'', ChildReport ''y''] = [] @ new
       \<and> runner_reports new = map (synthetic id) firsts
       \<and> distinct (map exc_key firsts)
       \<and> exc_key ` set firsts = {(\<lparr>category = ''a'', package = ''b'', fullver = ''1'', slot = ''0'',
                            live = False, pkg_keywords = []\<rparr>, ''bad'')})"
proof -
  let ?P = "\<lparr>category = ''a'', package = ''b'', fullver = ''1'', slot = ''0'', live = False,
         pkg_keywords = []\<rparr>"
  let ?cstart = "\<lambda>c :: nat. (c, [] :: string list, Returned :: string raised)"
  let ?cfeed = "\<lambda>(item :: string) (c :: nat). (Suc c, [item], MetadataException ?P ''keywords'' ''bad'')"
  let ?rep = "[ChildReport ''x'',
       RunnerReport \<lparr>me_category = ''a'', me_package = ''b'', me_version = ''1'',
                     me_attr = ''keywords'', me_msg = ''bad''\<rparr>,
       ChildReport ''x'', ChildReport ''y'', ChildReport ''y'']"
  have run: "run_events ?cstart ?cfeed id [Start, Feed ''x'', Feed ''y''] (CheckRunner [0 :: nat, 5]) []
      = (\<lparr>checks = [2, 7], metadata_errors = {(?P, ''bad'')}\<rparr>, ?rep, False)"
    by (simp add: CheckRunner_start_def CheckRunner_feed_def CheckRunner_def MetadataError_def
        error_str_def)
  have raised: "exc_key ` set (raised_in (call_of ?cstart ?cfeed) [Start, Feed ''x'', Feed ''y''] [0 :: nat, 5])
      = {(?P, ''bad'')}"
    by (simp add: call_of_def)
  from checkrunner_metadata_dedup [OF run] obtain new firsts where
    "?rep = [] @ new" "runner_reports new = map (synthetic id) firsts"
    "distinct (map exc_key firsts)"
    "exc_key ` set firsts = exc_key ` set (raised_in (call_of ?cstart ?cfeed) [Start, Feed ''x'', Feed ''y''] [0 :: nat, 5])"
    by blast
  with raised have "\<exists>new firsts. ?rep = [] @ new \<and> runner_reports new = map (synthetic id) firsts
       \<and> distinct (map exc_key firsts) \<and> exc_key ` set firsts = {(?P, ''bad'')}"
    by (intro exI [of _ new] exI [of _ firsts]) (simp only: simp_thms)
  with run show ?thesis by (intro conjI)
qed

subsection \<open>Runners below runners\<close>

text \<open>
  \<open>Transform.start\<close> calls \<open>start\<close> of its child, the runner that \<open>plug\<close> has put
  below the transform, with the same reporter. A child of a runner is such a transform
  (given by its runner) or a check; \<open>add_report_calls\<close> lists the results in the order
  in which the reporter receives them, whichever runner or check reported them.
\<close>

definition Transform_start :: "('c \<Rightarrow> 'c \<times> 'r list \<times> 'e raised) \<Rightarrow> ('e \<Rightarrow> string)
    \<Rightarrow> ('c, 'e) check_runner \<Rightarrow> ('c, 'e) check_runner \<times> 'r report list \<times> 'e raised" where
  "Transform_start cstart str_of child =
     (case CheckRunner_start cstart str_of child [] of
        (child', reports, esc) \<Rightarrow> (child', reports, if esc then OtherException else Returned))"

definition node_start :: "('c \<Rightarrow> 'c \<times> 'r list \<times> 'e raised) \<Rightarrow> ('e \<Rightarrow> string)
    \<Rightarrow> ('c, 'e) check_runner + 'c \<Rightarrow> (('c, 'e) check_runner + 'c) \<times> 'r report list \<times> 'e raised" where
  "node_start cstart str_of child =
     (case child of
        Inl t \<Rightarrow> (case Transform_start cstart str_of t of (t', out, ex) \<Rightarrow> (Inl t', out, ex))
      | Inr c \<Rightarrow> (case cstart c of (c', out, ex) \<Rightarrow> (Inr c', map ChildReport out, ex)))"

fun add_report_calls :: "'r report report list \<Rightarrow> 'r report list" where
  "add_report_calls [] = []"
| "add_report_calls (ChildReport r # rs) = r # add_report_calls rs"
| "add_report_calls (RunnerReport m # rs) = RunnerReport m # add_report_calls rs"

text \<open>
  C5. The set \<open>_metadata_errors\<close> belongs to one runner, and a planned pipeline has a
  runner at every node of its tree. For the runner with the children
  \<open>T(CheckRunner([B]))\<close> and \<open>A\<close>, where \<open>start\<close> of \<open>B\<close> and of \<open>A\<close> raise a
  metadata exception with the same package and error, the reporter receives the
  \<open>MetadataError\<close> twice: once from the inner runner and once from the outer one.
\<close>

theorem nested_runners_report_twice:
  "add_report_calls (fst (snd (CheckRunner_start
       (node_start (\<lambda>c :: nat. (c, [] :: string list, MetadataException
          \<lparr>category = ''a'', package = ''b'', fullver = ''1'', slot = ''0'', live = False,
           pkg_keywords = []\<rparr> ''keywords'' ''bad'')) id)
       id (CheckRunner [Inl (CheckRunner [0]), Inr 5]) [])))
   = [RunnerReport \<lparr>me_category = ''a'', me_package = ''b'', me_version = ''1'',
                    me_attr = ''keywords'', me_msg = ''bad''\<rparr>,
      RunnerReport \<lparr>me_category = ''a'', me_package = ''b'', me_version = ''1'',
                    me_attr = ''keywords'', me_msg = ''bad''\<rparr>]"
  by (simp add: CheckRunner_start_def CheckRunner_def node_start_def Transform_start_def
      MetadataError_def error_str_def)

section \<open>The pipeline planner (base.py, plug)\<close>

text \<open>
  Feed types are strings and scopes are the integers 0 to 3. Of a sink, a transform and
  a source the planner reads the attributes below; the name stands for the identity of
  the Python object. Costs are natural numbers.
\<close>

type_synonym feed = string
type_synonym scope = nat

record sink =
  sink_name :: string
  sink_feed_type :: feed
  sink_scope :: scope
  sink_priority :: int

record transform =
  trans_name :: string
  trans_source :: feed
  trans_dest :: feed
  trans_scope :: scope
  trans_cost :: nat

record source =
  source_name :: string
  source_feed_type :: feed
  source_scope :: scope
  source_cost :: nat

text \<open>
  The tuples of the single-pipeline search, (visited types, source, transforms, price),
  and of the combination search, (visited types, sources, sequence of pipelines,
  price). Frozensets are sets.
\<close>

type_synonym pipe = "feed set \<times> source \<times> transform set \<times> nat"
type_synonym combo = "feed set \<times> source set \<times> (source \<times> transform set) list \<times> nat"

text \<open>
  The sets \<open>todo\<close>, \<open>unprocessed\<close>, \<open>pipes\<close> and \<open>done\<close> are Python hash sets:
  \<open>pop\<close> and iteration take their elements in an order that the program does not
  control. A hash set is modelled by the list of its elements in insertion order, and
  the order in which the interpreter hands elements out by functions that choose a
  position in that list: one run of the planner is the planner under one
  \<open>hash_order\<close>.
\<close>

record hash_order =
  feed_pop :: "feed list \<Rightarrow> nat"
  pipe_pop :: "pipe list \<Rightarrow> nat"
  combo_pop :: "combo list \<Rightarrow> nat"
  trans_pop :: "transform list \<Rightarrow> nat"

definition set_add :: "'a list \<Rightarrow> 'a \<Rightarrow> 'a list" where
  "set_add xs x = (if x \<in> set xs then xs else xs @ [x])"

definition set_pop :: "('a list \<Rightarrow> nat) \<Rightarrow> 'a list \<Rightarrow> 'a \<times> 'a list" where
  "set_pop pop xs = (let i = pop xs mod length xs in (xs ! i, take i xs @ drop (Suc i) xs))"

fun set_iter_fuel :: "nat \<Rightarrow> ('a list \<Rightarrow> nat) \<Rightarrow> 'a list \<Rightarrow> 'a list" where
  "set_iter_fuel 0 pop xs = []"
| "set_iter_fuel (Suc n) pop xs =
     (if xs = [] then [] else case set_pop pop xs of (x, rest) \<Rightarrow> x # set_iter_fuel n pop rest)"

definition set_iter :: "('a list \<Rightarrow> nat) \<Rightarrow> 'a list \<Rightarrow> 'a list" where
  "set_iter pop xs = set_iter_fuel (length xs) pop xs"

subsection \<open>Reachable feed types and unreachable sinks\<close>

text \<open>One round of \<open>while todo\<close> for one source.\<close>

definition reach_step :: "hash_order \<Rightarrow> transform list \<Rightarrow> source \<Rightarrow> feed list \<times> feed set
    \<Rightarrow> feed list \<times> feed set" where
  "reach_step h transforms src st =
     (case st of (todo, reachable) \<Rightarrow>
        case set_pop (feed_pop h) todo of (feed_type, todo1) \<Rightarrow>
          let reachable1 = insert feed_type reachable in
          (fold (\<lambda>t td. if trans_scope t \<le> source_scope src \<and> trans_dest t \<notin> reachable1
                          then set_add td (trans_dest t) else td)
                (filter (\<lambda>t. trans_source t = feed_type) transforms) todo1,
           reachable1))"

definition reachable_from :: "hash_order \<Rightarrow> transform list \<Rightarrow> source \<Rightarrow> feed set option" where
  "reachable_from h transforms src =
     map_option snd (while_option (\<lambda>(todo, reachable). todo \<noteq> [])
                       (reach_step h transforms src) ([source_feed_type src], {}))"

text \<open>The loop over the sources that fills \<open>best_scope\<close>.\<close>

fun best_scopes :: "hash_order \<Rightarrow> transform list \<Rightarrow> source list \<Rightarrow> (feed \<rightharpoonup> scope)
    \<Rightarrow> (feed \<rightharpoonup> scope) option" where
  "best_scopes h transforms [] best_scope = Some best_scope"
| "best_scopes h transforms (src # srcs) best_scope =
     (case reachable_from h transforms src of
        None \<Rightarrow> None
      | Some reachable \<Rightarrow>
          best_scopes h transforms srcs
            (\<lambda>feed_type. if feed_type \<in> reachable
               then (case best_scope feed_type of
                       None \<Rightarrow> Some (source_scope src)
                     | Some sc \<Rightarrow> if sc < source_scope src then Some (source_scope src) else Some sc)
               else best_scope feed_type))"

definition is_bad :: "(feed \<rightharpoonup> scope) \<Rightarrow> sink \<Rightarrow> bool" where
  "is_bad best_scope snk =
     (case best_scope (sink_feed_type snk) of None \<Rightarrow> True | Some sc \<Rightarrow> sink_scope snk > sc)"

subsection \<open>The search for pipelines\<close>

text \<open>\<open>source_map\<close>: the cheapest source for each pair of scope and feed type.\<close>

fun source_map_of :: "source list \<Rightarrow> ((scope \<times> feed) \<times> source) list \<Rightarrow> ((scope \<times> feed) \<times> source) list" where
  "source_map_of [] m = m"
| "source_map_of (new_source # srcs) m =
     (let key = (source_scope new_source, source_feed_type new_source) in
      case map_of m key of
        None \<Rightarrow> source_map_of srcs (AList.update key new_source m)
      | Some current_source \<Rightarrow>
          if source_cost current_source > source_cost new_source
          then source_map_of srcs (AList.update key new_source m)
          else source_map_of srcs m)"

text \<open>
  The variables of the first search loop. \<open>source_var\<close> is the local variable
  \<open>source\<close> of \<open>plug\<close>, which \<open>build_transform\<close> reads later.
\<close>

record search_state =
  unprocessed :: "pipe list"
  pipes :: "pipe list"
  pipes_to_run :: "(source \<times> transform set) list option"
  best_cost :: "nat option"
  source_var :: source

definition search_step :: "hash_order \<Rightarrow> transform list \<Rightarrow> feed set \<Rightarrow> search_state \<Rightarrow> search_state" where
  "search_step h transforms sink_types st =
     (case set_pop (pipe_pop h) (unprocessed st) of (next, un1) \<Rightarrow>
        if next \<in> set (pipes st) then st\<lparr>unprocessed := un1\<rparr>
        else
          case next of (visited, src, trns, cost) \<Rightarrow>
            let st1 = st\<lparr>unprocessed := un1, pipes := pipes st @ [next], source_var := src\<rparr> in
            if sink_types \<subseteq> visited then
              (if best_cost st = None \<or> cost < the (best_cost st)
               then st1\<lparr>pipes_to_run := Some [(src, trns)], best_cost := Some cost\<rparr>
               else st1)
            else if best_cost st \<noteq> None \<and> the (best_cost st) \<le> cost then st1
            else
              st1\<lparr>unprocessed :=
                    fold (\<lambda>t un. if source_scope src \<ge> trans_scope t \<and> trans_source t \<in> visited
                                      \<and> trans_dest t \<notin> visited
                                   then set_add un (insert (trans_dest t) visited, src,
                                                    insert t trns, cost + trans_cost t)
                                   else un)
                         transforms un1\<rparr>)"

definition search :: "hash_order \<Rightarrow> transform list \<Rightarrow> feed set \<Rightarrow> search_state \<Rightarrow> search_state option" where
  "search h transforms sink_types st0 =
     while_option (\<lambda>st. unprocessed st \<noteq> []) (search_step h transforms sink_types) st0"

text \<open>The second search loop, which combines pipelines of different sources.\<close>

record combine_state =
  c_unprocessed :: "combo list"
  c_done :: "combo list"
  c_pipes_to_run :: "(source \<times> transform set) list option"
  c_best_cost :: "nat option"
  c_source_var :: source

definition combine_step :: "hash_order \<Rightarrow> feed set
    \<Rightarrow> (source \<times> (feed set \<times> transform set \<times> nat) list) list \<Rightarrow> combine_state \<Rightarrow> combine_state" where
  "combine_step h sink_types source_to_pipes st =
     (case set_pop (combo_pop h) (c_unprocessed st) of (next, un1) \<Rightarrow>
        if next \<in> set (c_done st) then st\<lparr>c_unprocessed := un1\<rparr>
        else
          case next of (visited, srcs, seq, cost) \<Rightarrow>
            let st1 = st\<lparr>c_unprocessed := un1, c_done := c_done st @ [next]\<rparr>;
                st2 = (if sink_types \<subseteq> visited \<and> (c_best_cost st1 = None \<or> cost < the (c_best_cost st1))
                       then st1\<lparr>c_pipes_to_run := Some seq, c_best_cost := Some cost\<rparr>
                       else st1)
            in
            if c_best_cost st2 \<noteq> None \<and> the (c_best_cost st2) \<le> cost then st2
            else
              st2\<lparr>c_unprocessed :=
                     fold (\<lambda>(src, source_pipes) un.
                             if src \<notin> srcs
                             then fold (\<lambda>(new_visited, trns, new_cost) un.
                                          set_add un (visited \<union> new_visited, insert src srcs,
                                                      seq @ [(src, trns)], cost + new_cost))
                                       source_pipes un
                             else un)
                          source_to_pipes un1,
                   c_source_var := fst (last source_to_pipes)\<rparr>)"

definition combine :: "hash_order \<Rightarrow> feed set \<Rightarrow> (source \<times> (feed set \<times> transform set \<times> nat) list) list
    \<Rightarrow> combine_state \<Rightarrow> combine_state option" where
  "combine h sink_types source_to_pipes st0 =
     while_option (\<lambda>st. c_unprocessed st \<noteq> []) (combine_step h sink_types source_to_pipes) st0"

subsection \<open>Construction of the runner trees\<close>

text \<open>
  A child of a runner is a sink, or a transform wrapped around the runner of its own
  children: \<open>TransNode t cs\<close> stands for \<open>t(CheckRunner(cs))\<close>, and a list of nodes for
  the \<open>CheckRunner\<close> of these children, which \<open>feed\<close> calls in this order.
\<close>

datatype node = SinkNode sink | TransNode transform "node list"

text \<open>
  The loop \<open>for i in reversed(range(len(good_sinks)))\<close>, which moves the sinks that
  satisfy the test from the pool to the children.
\<close>

fun take_sinks :: "(sink \<Rightarrow> bool) \<Rightarrow> nat \<Rightarrow> sink list \<Rightarrow> node list \<Rightarrow> node list \<times> sink list" where
  "take_sinks P 0 good_sinks children = (children, good_sinks)"
| "take_sinks P (Suc i) good_sinks children =
     (let snk = good_sinks ! i in
      if P snk then take_sinks P i (take i good_sinks @ drop (Suc i) good_sinks)
                                 (children @ [SinkNode snk])
      else take_sinks P i good_sinks children)"

text \<open>
  \<open>build_transform\<close> recurses as long as the transforms lead on; the first argument
  bounds the depth of the recursion as the interpreter's recursion limit does. The test
  on a sink reads the scope of \<open>src_var\<close>, the variable \<open>source\<close> of \<open>plug\<close>, and
  not the parameter \<open>scope\<close>.
\<close>

fun build_transform :: "nat \<Rightarrow> source \<Rightarrow> scope \<Rightarrow> feed \<Rightarrow> transform list \<Rightarrow> sink list
      \<Rightarrow> py_error + node list \<times> sink list"
  and build_children :: "nat \<Rightarrow> source \<Rightarrow> scope \<Rightarrow> feed \<Rightarrow> transform list \<Rightarrow> transform list
      \<Rightarrow> sink list \<Rightarrow> py_error + node list \<times> sink list" where
  "build_transform 0 src_var scope feed_type transforms good_sinks = Inl RecursionError"
| "build_transform (Suc depth) src_var scope feed_type transforms good_sinks =
     (case build_children depth src_var scope feed_type transforms transforms good_sinks of
        Inl e \<Rightarrow> Inl e
      | Inr (children, good_sinks1) \<Rightarrow>
          Inr (take_sinks (\<lambda>snk. sink_feed_type snk = feed_type \<and> sink_scope snk \<le> source_scope src_var)
                 (length good_sinks1) good_sinks1 children))"
| "build_children depth src_var scope feed_type transforms [] good_sinks = Inr ([], good_sinks)"
| "build_children depth src_var scope feed_type transforms (trns # rest) good_sinks =
     (if trans_source trns = feed_type \<and> trans_scope trns \<le> scope then
        (case build_transform depth src_var scope (trans_dest trns) transforms good_sinks of
           Inl e \<Rightarrow> Inl e
         | Inr (sub, good_sinks1) \<Rightarrow>
             (case build_children depth src_var scope feed_type transforms rest good_sinks1 of
                Inl e \<Rightarrow> Inl e
              | Inr (children, good_sinks2) \<Rightarrow> Inr (TransNode trns sub # children, good_sinks2)))
      else build_children depth src_var scope feed_type transforms rest good_sinks)"

text \<open>The trees of the chosen pipelines, built one after the other on the same pool.\<close>

fun build_result :: "hash_order \<Rightarrow> nat \<Rightarrow> source \<Rightarrow> transform list \<Rightarrow> (source \<times> transform set) list \<Rightarrow> sink list
    \<Rightarrow> py_error + (source \<times> node list) list \<times> sink list" where
  "build_result h depth src_var all_transforms [] good_sinks = Inr ([], good_sinks)"
| "build_result h depth src_var all_transforms ((src, transforms) # rest) good_sinks =
     (case build_transform depth src_var (source_scope src) (source_feed_type src)
             (set_iter (trans_pop h) (remdups (filter (\<lambda>t. t \<in> transforms) all_transforms)))
             good_sinks of
        Inl e \<Rightarrow> Inl e
      | Inr (children, good_sinks1) \<Rightarrow>
          (case build_result h depth src_var all_transforms rest good_sinks1 of
             Inl e \<Rightarrow> Inl e
           | Inr (result, good_sinks2) \<Rightarrow> Inr ((src, children) # result, good_sinks2)))"


subsection \<open>The planner\<close>

definition combine_phase :: "hash_order \<Rightarrow> feed set \<Rightarrow> pipe list
    \<Rightarrow> ((source \<times> transform set) list option \<times> source) option" where
  "combine_phase h sink_types pipes_set =
     (let ordered = set_iter (pipe_pop h) pipes_set;
          source_to_pipes = fold (\<lambda>(visited, src, trns, cost) d. dict_append d src (visited, trns, cost))
                                 ordered [];
          un = fold (\<lambda>(visited, src, trns, cost) un. set_add un (visited, {src}, [(src, trns)], cost))
                    ordered []
      in map_option (\<lambda>st. (c_pipes_to_run st, c_source_var st))
           (combine h sink_types source_to_pipes
              \<lparr>c_unprocessed = un, c_done = [], c_pipes_to_run = None, c_best_cost = None,
               c_source_var = fst (snd (last ordered))\<rparr>))"

text \<open>
  The part of \<open>plug\<close> before the trees are built ends in one of the two early returns
  or with the good and bad sinks, \<open>pipes_to_run\<close> and the variable \<open>source\<close>.
\<close>

datatype planned =
    NoGoodSinks "sink list"
  | NoSources "sink list"
  | Planned "sink list" "sink list" "(source \<times> transform set) list option" source

definition find_pipes :: "hash_order \<Rightarrow> transform list \<Rightarrow> feed set \<Rightarrow> source list \<Rightarrow> source
    \<Rightarrow> ((source \<times> transform set) list option \<times> source) option" where
  "find_pipes h transforms sink_types sources1 src_var =
     (let source_map = source_map_of sources1 [];
          seeds = fold (\<lambda>src un. set_add un ({source_feed_type src}, src, {}, source_cost src))
                       (map snd source_map) []
      in
      case search h transforms sink_types
             \<lparr>unprocessed = seeds, pipes = [], pipes_to_run = None, best_cost = None,
              source_var = src_var\<rparr> of
        None \<Rightarrow> None
      | Some st \<Rightarrow>
          if pipes_to_run st = None then combine_phase h sink_types (pipes st)
          else Some (pipes_to_run st, source_var st))"

definition plan :: "hash_order \<Rightarrow> sink list \<Rightarrow> transform list \<Rightarrow> source list \<Rightarrow> planned option" where
  "plan h sinks transforms sources =
     (case best_scopes h transforms sources Map.empty of
        None \<Rightarrow> None
      | Some best_scope \<Rightarrow>
          let good_sinks = filter (\<lambda>snk. \<not> is_bad best_scope snk) sinks;
              bad_sinks = filter (is_bad best_scope) sinks
          in
          if good_sinks = [] then Some (NoGoodSinks bad_sinks)
          else
            let lowest_required_scope = Min (set (map sink_scope good_sinks));
                sources1 = filter (\<lambda>s. source_scope s \<ge> lowest_required_scope) sources
            in
            if sources1 = [] then Some (NoSources (bad_sinks @ good_sinks))
            else
              map_option (\<lambda>(to_run, src_var). Planned bad_sinks good_sinks to_run src_var)
                (find_pipes h transforms (set (map sink_feed_type good_sinks)) sources1 (last sources)))"

text \<open>
  \<open>plug\<close>: \<open>None\<close> when a loop does not end, otherwise the exception raised or the pair
  returned.
\<close>

definition plug :: "hash_order \<Rightarrow> nat \<Rightarrow> sink list \<Rightarrow> transform list \<Rightarrow> source list
    \<Rightarrow> (py_error + sink list \<times> (source \<times> node list) list) option" where
  "plug h depth sinks transforms sources =
     (if sinks = [] then Some (Inl AssertionError)
      else
        case plan h sinks transforms sources of
          None \<Rightarrow> None
        | Some (NoGoodSinks bad_sinks) \<Rightarrow> Some (Inr (bad_sinks, []))
        | Some (NoSources all_sinks) \<Rightarrow> Some (Inr (all_sinks, []))
        | Some (Planned bad_sinks good_sinks to_run src_var) \<Rightarrow>
            if to_run = None \<or> to_run = Some [] then Some (Inl AssertionError)
            else
              (case build_result h depth src_var transforms (the to_run)
                      (sort_key sink_priority good_sinks) of
                 Inl e \<Rightarrow> Some (Inl e)
               | Inr (result, sinks_left) \<Rightarrow>
                   if sinks_left \<noteq> [] then Some (Inl AssertionError)
                   else Some (Inr (bad_sinks, result))))"

subsection \<open>Sinks of the planned pipelines\<close>

text \<open>\<open>collect_checks\<close>: the checks below a child, in order.\<close>

fun collect_checks :: "node \<Rightarrow> sink list" where
  "collect_checks (SinkNode snk) = [snk]"
| "collect_checks (TransNode t children) = concat (map collect_checks children)"

definition assigned_sinks :: "(source \<times> node list) list \<Rightarrow> sink list" where
  "assigned_sinks result = concat (map (\<lambda>(src, children). concat (map collect_checks children)) result)"

lemma take_sinks_prefix:
  "i \<le> length pool \<Longrightarrow>
   take_sinks P i pool children =
     (children @ map SinkNode (rev (filter P (take i pool))),
      filter (\<lambda>s. \<not> P s) (take i pool) @ drop i pool)"
proof (induction i arbitrary: pool children)
  case 0
  then show ?case by simp
next
  case (Suc i)
  then have i: "i < length pool" by simp
  then have tk: "take (Suc i) pool = take i pool @ [pool ! i]"
    by (simp add: take_Suc_conv_app_nth)
  show ?case
  proof (cases "P (pool ! i)")
    case True
    let ?pool = "take i pool @ drop (Suc i) pool"
    from i have len: "i \<le> length ?pool" by simp
    from i have t: "take i ?pool = take i pool" and d: "drop i ?pool = drop (Suc i) pool"
      by simp_all
    show ?thesis
      using True Suc.IH [OF len, of "children @ [SinkNode (pool ! i)]"]
      by (simp add: Let_def t d tk del: take_append drop_append)
  next
    case False
    from i have "i \<le> length pool" by simp
    from Suc.IH [OF this, of children] False i show ?thesis
      by (simp add: Let_def tk Cons_nth_drop_Suc)
  qed
qed

lemma take_sinks_all:
  "take_sinks P (length pool) pool children =
     (children @ map SinkNode (rev (filter P pool)), filter (\<lambda>s. \<not> P s) pool)"
  using take_sinks_prefix [of "length pool" pool P children] by simp

abbreviation sinks_in :: "node list \<Rightarrow> sink list" where
  "sinks_in nodes \<equiv> concat (map collect_checks nodes)"

lemma sinks_in_SinkNodes [simp]: "sinks_in (map SinkNode xs) = xs"
  by (induction xs) simp_all

lemma sinks_in_SinkNodes_comp [simp]: "concat (map (collect_checks \<circ> SinkNode) xs) = xs"
  by (induction xs) simp_all

lemma take_sinks_mset:
  assumes "take_sinks P (length pool) pool children = (nodes, pool')"
  shows "mset (sinks_in nodes) + mset pool' = mset (sinks_in children) + mset pool"
proof -
  from assms have n: "nodes = children @ map SinkNode (rev (filter P pool))"
    and p: "pool' = filter (\<lambda>s. \<not> P s) pool"
    by (simp_all add: take_sinks_all)
  have "mset (filter P pool) + mset (filter (\<lambda>s. \<not> P s) pool) = mset pool"
    by (induction pool) auto
  then show ?thesis
    unfolding n p by (simp add: add.assoc)
qed

lemma build_mset:
  "build_transform depth sv sc ft ts pool = Inr (nodes, pool') \<Longrightarrow>
     mset (sinks_in nodes) + mset pool' = mset pool"
  "build_children depth sv sc ft ts rest pool = Inr (nodes, pool') \<Longrightarrow>
     mset (sinks_in nodes) + mset pool' = mset pool"
proof (induction depth sv sc ft ts pool and depth sv sc ft ts rest pool
    arbitrary: nodes pool' and nodes pool' rule: build_transform_build_children.induct)
  case (1 src_var scope feed_type transforms good_sinks)
  then show ?case by simp
next
  case (2 depth src_var scope feed_type transforms good_sinks)
  from "2.prems" obtain children pool1 where
    bc: "build_children depth src_var scope feed_type transforms transforms good_sinks = Inr (children, pool1)"
    and ts: "take_sinks (\<lambda>snk. sink_feed_type snk = feed_type \<and> sink_scope snk \<le> source_scope src_var)
                 (length pool1) pool1 children = (nodes, pool')"
    by (auto split: sum.splits)
  from "2.IH" [OF bc] have "mset (sinks_in children) + mset pool1 = mset good_sinks" .
  moreover from ts have "mset (sinks_in nodes) + mset pool' = mset (sinks_in children) + mset pool1"
    by (rule take_sinks_mset)
  ultimately show ?case by simp
next
  case (3 depth src_var scope feed_type transforms good_sinks)
  then show ?case by simp
next
  case (4 depth src_var scope feed_type transforms trns rest good_sinks)
  show ?case
  proof (cases "trans_source trns = feed_type \<and> trans_scope trns \<le> scope")
    case True
    with "4.prems" obtain sub pool1 children where
      bt: "build_transform depth src_var scope (trans_dest trns) transforms good_sinks = Inr (sub, pool1)"
      and bc: "build_children depth src_var scope feed_type transforms rest pool1 = Inr (children, pool')"
      and n: "nodes = TransNode trns sub # children"
      by (auto split: sum.splits)
    from "4.IH"(1) [OF True bt] have "mset (sinks_in sub) + mset pool1 = mset good_sinks" .
    moreover from "4.IH"(2) [OF True bt refl bc] have "mset (sinks_in children) + mset pool' = mset pool1" .
    ultimately show ?thesis using n by (simp add: add.assoc)
  next
    case False
    with "4.prems" "4.IH"(3) show ?thesis by simp
  qed
qed

lemma build_result_mset:
  "build_result h depth sv all_ts to_run pool = Inr (result, pool') \<Longrightarrow>
     mset (assigned_sinks result) + mset pool' = mset pool"
proof (induction to_run arbitrary: pool result pool')
  case Nil
  then show ?case by (simp add: assigned_sinks_def)
next
  case (Cons p to_run)
  obtain src trns where p: "p = (src, trns)" by (cases p)
  from Cons.prems p obtain children pool1 rest where
    bt: "build_transform depth sv (source_scope src) (source_feed_type src)
            (set_iter (trans_pop h) (remdups (filter (\<lambda>t. t \<in> trns) all_ts))) pool = Inr (children, pool1)"
    and br: "build_result h depth sv all_ts to_run pool1 = Inr (rest, pool')"
    and r: "result = (src, children) # rest"
    by (auto split: sum.splits)
  from build_mset(1) [OF bt] have "mset (sinks_in children) + mset pool1 = mset pool" .
  moreover from Cons.IH [OF br] have "mset (assigned_sinks rest) + mset pool' = mset pool1" .
  ultimately show ?case using r by (simp add: assigned_sinks_def add.assoc)
qed

lemma plan_sinks:
  assumes "plan h sinks transforms sources = Some p"
  shows "case p of NoGoodSinks bad \<Rightarrow> mset bad = mset sinks
         | NoSources every \<Rightarrow> mset every = mset sinks
         | Planned bad good to_run sv \<Rightarrow> mset bad + mset good = mset sinks"
proof -
  have part: "mset (filter P sinks) + mset (filter (\<lambda>x. \<not> P x) sinks) = mset sinks" for P
    by (induction sinks) auto
  have all: "filter (\<lambda>x. \<not> P x) sinks = [] \<Longrightarrow> filter P sinks = sinks" for P
    by (induction sinks) (auto split: if_splits)
  from assms show ?thesis
    unfolding plan_def Let_def
    by (auto split: option.splits if_splits simp: part all)
qed

lemma plug_mset:
  assumes "plug h depth sinks transforms sources = Some (Inr (unreachable, result))"
  shows "mset unreachable + mset (assigned_sinks result) = mset sinks"
proof -
  from assms have ne: "sinks \<noteq> []"
    by (auto simp: plug_def)
  from assms ne obtain p where p: "plan h sinks transforms sources = Some p"
    by (auto simp: plug_def split: option.splits)
  note ps = plan_sinks [OF p]
  show ?thesis
  proof (cases p)
    case (NoGoodSinks bad)
    with assms ne p ps show ?thesis by (simp add: plug_def assigned_sinks_def)
  next
    case (NoSources every)
    with assms ne p ps show ?thesis by (simp add: plug_def assigned_sinks_def)
  next
    case (Planned bad good to_run sv)
    with assms ne p obtain left where
      br: "build_result h depth sv transforms (the to_run) (sort_key sink_priority good) = Inr (result, left)"
      and left: "left = []" and u: "unreachable = bad"
      by (auto simp: plug_def split: if_splits sum.splits)
    from build_result_mset [OF br] left have "mset (assigned_sinks result) = mset good" by simp
    with ps Planned u show ?thesis by simp
  qed
qed

subsection \<open>Example inputs\<close>

text \<open>
  The sources and the transform of the scenario with one pipeline: a source of versions,
  a source of packages, and a transform from versions to packages; sinks for each feed
  type, and a sink for a feed type that nothing produces.
\<close>

definition S_ver :: source where
  "S_ver = \<lparr>source_name = ''S_ver'', source_feed_type = ''cat/pkg-ver'', source_scope = 0, source_cost = 5\<rparr>"

definition S_pkg :: source where
  "S_pkg = \<lparr>source_name = ''S_pkg'', source_feed_type = ''cat/pkg'', source_scope = 1, source_cost = 3\<rparr>"

definition T_ver_pkg :: transform where
  "T_ver_pkg = \<lparr>trans_name = ''T'', trans_source = ''cat/pkg-ver'', trans_dest = ''cat/pkg'',
                 trans_scope = 0, trans_cost = 1\<rparr>"

definition sink_A :: sink where
  "sink_A = \<lparr>sink_name = ''A'', sink_feed_type = ''cat/pkg-ver'', sink_scope = 0, sink_priority = 0\<rparr>"

definition sink_B :: sink where
  "sink_B = \<lparr>sink_name = ''B'', sink_feed_type = ''cat/pkg'', sink_scope = 0, sink_priority = 0\<rparr>"

definition sink_C :: sink where
  "sink_C = \<lparr>sink_name = ''C'', sink_feed_type = ''cat'', sink_scope = 0, sink_priority = 0\<rparr>"

definition sink_late :: sink where
  "sink_late = \<lparr>sink_name = ''late'', sink_feed_type = ''cat/pkg-ver'', sink_scope = 0, sink_priority = 1\<rparr>"

definition sink_A2 :: sink where
  "sink_A2 = \<lparr>sink_name = ''A2'', sink_feed_type = ''cat/pkg-ver'', sink_scope = 0, sink_priority = 0\<rparr>"

lemmas example_defs = S_ver_def S_pkg_def T_ver_pkg_def sink_A_def sink_B_def sink_C_def
  sink_late_def sink_A2_def

lemmas plug_defs = plug_def plan_def find_pipes_def search_def search_step_def reachable_from_def
  reach_step_def is_bad_def set_pop_def set_add_def set_iter_def combine_phase_def combine_def
  combine_step_def

subsection \<open>Properties of the planner\<close>

text \<open>
  C1. The sinks of one runner are not called in ascending order of priority. For the
  sinks A (priority 0), late (priority 1) and A2 (priority 0) on the feed type of the
  only source, under every hash order, the runner of the pipeline has the children late,
  A2, A in this order: the sorted pool is taken from its end. \<open>feed\<close> calls the children
  in the order of the list, so that the sink with the highest priority value is called
  first and sinks of equal priority in the reverse of their input order.
\<close>

theorem plug_priority_order:
  "plug h (Suc depth) [sink_A, sink_late, sink_A2] [] [S_ver]
     = Some (Inr ([], [(S_ver, [SinkNode sink_late, SinkNode sink_A2, SinkNode sink_A])]))
   \<and> fst (snd (snd (runner_loop (\<lambda>c. (c, [c], Returned)) str_of
                      [SinkNode sink_late, SinkNode sink_A2, SinkNode sink_A] {} [])))
     = [ChildReport (SinkNode sink_late), ChildReport (SinkNode sink_A2), ChildReport (SinkNode sink_A)]"
  by (simp add: plug_defs example_defs while_option_unfold Let_def)

text \<open>
  What the final assertion of \<open>plug\<close> checks: whenever the planner returns a pair, every
  input sink is either in the unreachable output or assigned to a pipeline, and never
  both; a sink is assigned once, hence to one pipeline only.
\<close>

theorem plug_partitions_sinks:
  assumes "plug h depth sinks transforms sources = Some (Inr (unreachable, result))"
  shows "mset unreachable + mset (assigned_sinks result) = mset sinks
       \<and> set unreachable \<union> set (assigned_sinks result) = set sinks
       \<and> (distinct sinks \<longrightarrow>
            set unreachable \<inter> set (assigned_sinks result) = {} \<and> distinct (assigned_sinks result))"
proof -
  from plug_mset [OF assms]
  have m: "mset (unreachable @ assigned_sinks result) = mset sinks" by simp
  then have "set (unreachable @ assigned_sinks result) = set sinks"
    by (rule mset_eq_setD)
  moreover have "distinct (unreachable @ assigned_sinks result)" if "distinct sinks"
    using that m by (metis distinct_count_atmost_1 count_mset_0_iff mset_eq_imp_distinct_iff)
  ultimately show ?thesis using m by auto
qed

theorem plug_partitions_sinks_witness:
  "plug \<lparr>feed_pop = (\<lambda>_. 0), pipe_pop = (\<lambda>_. 0), combo_pop = (\<lambda>_. 0), trans_pop = (\<lambda>_. 0)\<rparr> 10
        [sink_C, sink_A, sink_B] [T_ver_pkg] [S_ver, S_pkg]
     = Some (Inr ([sink_C], [(S_ver, [TransNode T_ver_pkg [SinkNode sink_B], SinkNode sink_A])]))
   \<and> set [sink_C] \<union> set (assigned_sinks [(S_ver, [TransNode T_ver_pkg [SinkNode sink_B], SinkNode sink_A])])
     = set [sink_C, sink_A, sink_B]
   \<and> set [sink_C] \<inter> set (assigned_sinks [(S_ver, [TransNode T_ver_pkg [SinkNode sink_B], SinkNode sink_A])]) = {}
   \<and> distinct (assigned_sinks [(S_ver, [TransNode T_ver_pkg [SinkNode sink_B], SinkNode sink_A])])"
proof -
  let ?h = "\<lparr>feed_pop = (\<lambda>_. 0), pipe_pop = (\<lambda>_. 0), combo_pop = (\<lambda>_. 0), trans_pop = (\<lambda>_. 0)\<rparr>"
  let ?R = "[(S_ver, [TransNode T_ver_pkg [SinkNode sink_B], SinkNode sink_A])]"
  have run: "plug ?h 10 [sink_C, sink_A, sink_B] [T_ver_pkg] [S_ver, S_pkg] = Some (Inr ([sink_C], ?R))"
    by code_simp
  have d: "distinct [sink_C, sink_A, sink_B]"
    by (simp add: example_defs)
  from plug_partitions_sinks [OF run] d run show ?thesis
    by (intro conjI) (simp_all only: simp_thms)
qed

text \<open>
  Two hash orders: the sets hand out the element inserted first, or the element
  inserted last. Two sources of packages, one of package scope and one, cheaper, of
  version scope; a sink of version scope and a sink of package scope on their feed type.
\<close>

definition pop_first :: hash_order where
  "pop_first = \<lparr>feed_pop = (\<lambda>_. 0), pipe_pop = (\<lambda>_. 0), combo_pop = (\<lambda>_. 0), trans_pop = (\<lambda>_. 0)\<rparr>"

definition pop_last :: hash_order where
  "pop_last = \<lparr>feed_pop = (\<lambda>xs. length xs - 1), pipe_pop = (\<lambda>xs. length xs - 1),
               combo_pop = (\<lambda>xs. length xs - 1), trans_pop = (\<lambda>xs. length xs - 1)\<rparr>"

definition S_hi :: source where
  "S_hi = \<lparr>source_name = ''S_hi'', source_feed_type = ''cat/pkg'', source_scope = 1, source_cost = 5\<rparr>"

definition S_lo :: source where
  "S_lo = \<lparr>source_name = ''S_lo'', source_feed_type = ''cat/pkg'', source_scope = 0, source_cost = 1\<rparr>"

definition sink_a :: sink where
  "sink_a = \<lparr>sink_name = ''a'', sink_feed_type = ''cat/pkg'', sink_scope = 0, sink_priority = 0\<rparr>"

definition sink_b :: sink where
  "sink_b = \<lparr>sink_name = ''b'', sink_feed_type = ''cat/pkg'', sink_scope = 1, sink_priority = 0\<rparr>"

text \<open>
  C4. A sink that \<open>plug\<close> counts as reachable is not always assigned. Both sinks pass the
  test against \<open>best_scope\<close>, since the source of package scope produces their feed
  type; the search then keeps the cheapest pipeline, the one of the source of version
  scope. \<open>build_transform\<close> compares the scope of a sink with the scope of the
  variable \<open>source\<close> of \<open>plug\<close>, the source of the pipe popped last. When that is
  the source of version scope, the sink of package scope stays in the pool and the
  assertion \<open>sinks left\<close> fails; when it is the source of package scope, the sink of
  package scope is put below the source of version scope.
\<close>

theorem plug_sinks_left:
  "plan pop_first [sink_a, sink_b] [] [S_hi, S_lo]
     = Some (Planned [] [sink_a, sink_b] (Some [(S_lo, {})]) S_lo)
   \<and> plug pop_first 10 [sink_a, sink_b] [] [S_hi, S_lo] = Some (Inl AssertionError)
   \<and> plan pop_last [sink_a, sink_b] [] [S_hi, S_lo]
     = Some (Planned [] [sink_a, sink_b] (Some [(S_lo, {})]) S_hi)
   \<and> plug pop_last 10 [sink_a, sink_b] [] [S_hi, S_lo]
     = Some (Inr ([], [(S_lo, [SinkNode sink_b, SinkNode sink_a])]))"
  by code_simp

section \<open>The search of the planner\<close>

text \<open>
  The loops of \<open>plug\<close> over hash sets end under every hash order, and what they compute
  is characterised here independently of the order in which the sets hand out their
  elements.
\<close>

subsection \<open>Sets in insertion order\<close>


lemma set_add_set [simp]: "set (set_add xs x) = insert x (set xs)"
  by (auto simp: set_add_def)



subsection \<open>The feed types a source reaches\<close>

text \<open>
  \<open>reach ts sc ft\<close>: the feed types that a source of feed type \<open>ft\<close> and scope \<open>sc\<close>
  produces through the transforms \<open>ts\<close>; a transform applies when its scope is at most
  the scope of the source. The loop \<open>while todo\<close> computes this set for all the
  transforms, under every hash order.
\<close>

inductive_set reach :: "transform set \<Rightarrow> scope \<Rightarrow> feed \<Rightarrow> feed set"
  for ts :: "transform set" and sc :: scope and ft :: feed where
    start: "ft \<in> reach ts sc ft"
  | step: "f \<in> reach ts sc ft \<Longrightarrow> t \<in> ts \<Longrightarrow> trans_source t = f \<Longrightarrow> trans_scope t \<le> sc
           \<Longrightarrow> trans_dest t \<in> reach ts sc ft"










subsection \<open>The first search loop\<close>

text \<open>
  \<open>derivs\<close>: the tuples that the loop \<open>while unprocessed\<close> can put into \<open>unprocessed\<close>,
  the initial tuple of every source of \<open>source_map\<close> and every tuple grown by one
  transform from a tuple that does not yet reach all sink types.
\<close>

inductive_set derivs :: "transform list \<Rightarrow> feed set \<Rightarrow> source set \<Rightarrow> pipe set"
  for transforms :: "transform list" and sink_types :: "feed set" and srcs :: "source set" where
    seed: "s \<in> srcs \<Longrightarrow> ({source_feed_type s}, s, {}, source_cost s) \<in> derivs transforms sink_types srcs"
  | grow: "(v, s, t, c) \<in> derivs transforms sink_types srcs \<Longrightarrow> \<not> sink_types \<subseteq> v
           \<Longrightarrow> tr \<in> set transforms \<Longrightarrow> trans_scope tr \<le> source_scope s
           \<Longrightarrow> trans_source tr \<in> v \<Longrightarrow> trans_dest tr \<notin> v
           \<Longrightarrow> (insert (trans_dest tr) v, s, insert tr t, c + trans_cost tr)
                 \<in> derivs transforms sink_types srcs"

























subsection \<open>The cost of the chosen plan\<close>













subsection \<open>The hash order and the result\<close>





end
